theory Spec2Isabelle
  imports Main
begin

section \<open>Strings and the regular-expression engine\<close>

text \<open>
  Strings are lists of characters; a character stands for a code point below 256.
  \<open>isspace\<close> is Python's \<open>str.isspace\<close> on that range, which is also what the
  class \<open>\s\<close> of \<open>re\<close> accepts in a \<open>str\<close> pattern.
\<close>

definition isspace :: "char \<Rightarrow> bool" where
  "isspace c = (c \<in> {CHR 0x09, CHR 0x0A, CHR 0x0B, CHR 0x0C, CHR 0x0D,
                      CHR 0x1C, CHR 0x1D, CHR 0x1E, CHR 0x1F, CHR 0x20, CHR 0x85, CHR 0xA0})"

definition isalpha :: "char \<Rightarrow> bool" where
  "isalpha c = (let n = (of_char c :: nat) in (97 \<le> n \<and> n \<le> 122) \<or> (65 \<le> n \<and> n \<le> 90))"

definition isdigit :: "char \<Rightarrow> bool" where
  "isdigit c = (let n = (of_char c :: nat) in 48 \<le> n \<and> n \<le> 57)"

definition isalnum :: "char \<Rightarrow> bool" where
  "isalnum c = (isalpha c \<or> isdigit c)"

definition strip :: "string \<Rightarrow> string" where
  "strip s = rev (dropWhile isspace (rev (dropWhile isspace s)))"

definition startswith :: "string \<Rightarrow> string \<Rightarrow> bool" where
  "startswith s x = (take (length x) s = x)"

text \<open>
  The module \<open>re\<close> is Python's library, not code of the checker. It enters the model as
  a parameter: \<open>re_search p s\<close> is \<open>re.search(p, s)\<close> and gives the start and end of
  the leftmost match, \<open>re_match p s\<close> is \<open>re.match(p, s)\<close> and gives the end of the
  match anchored at the start of \<open>s\<close>, \<open>re_escape\<close> is \<open>re.escape\<close>. \<open>ReNone\<close> is
  the result \<open>None\<close>; \<open>ReError\<close> is the exception \<open>re.error\<close> of a pattern that
  does not compile.
\<close>

datatype 'a re_result = ReError | ReNone | ReSome 'a

record regex_engine =
  re_escape :: "string \<Rightarrow> string"
  re_search :: "string \<Rightarrow> string \<Rightarrow> (nat \<times> nat) re_result"
  re_match :: "string \<Rightarrow> string \<Rightarrow> nat re_result"

section \<open>Check elements and check lines\<close>

text \<open>
  \<open>CheckElement(variant, name, pattern)\<close>: \<open>Text p\<close> and \<open>Pattern p\<close> carry the
  pattern only (\<open>Text\<close> the escaped text), \<open>VarRef n\<close> the name only, \<open>VarDef n b\<close>
  the name and the body.
\<close>

datatype CheckElement = Text string | Pattern string | VarRef string | VarDef string string

datatype LineVariant = InOrder | DAG | Not

record CheckLine =
  content :: string
  variant :: LineVariant
  lineNo :: int
  lineParts :: "CheckElement list"

text \<open>
  The exceptions of the checker. The source raises \<open>Exception\<close> with a message; the
  constructors keep what the message names. \<open>TypeError\<close>, \<open>IndexError\<close> and
  \<open>AssertionError\<close> are the interpreter's own exceptions, \<open>RegexError\<close> is
  \<open>re.error\<close>.
\<close>

datatype error =
    EmptyCheckLine
  | NotLineDefinesVariable int
  | UndefinedVariable string
  | RedefinedVariable string
  | CouldNotMatchLine CheckLine
  | NotLineMatches CheckLine
  | CheckGroupNoName
  | CheckGroupNoBody string
  | OutputGroupNoName
  | OutputGroupNoBody string
  | GroupNotFound string
  | LineOutsideGroup int
  | TypeError
  | IndexError
  | AssertionError
  | RegexError

definition parseText :: "regex_engine \<Rightarrow> string \<Rightarrow> CheckElement" where
  "parseText eng text = Text (re_escape eng text)"

definition parsePattern :: "string \<Rightarrow> CheckElement" where
  "parsePattern patternElem = Pattern (take (length patternElem - 2 - 2) (drop 2 patternElem))"

text \<open>\<open>str.find(":")\<close>: the index of the first colon, if any.\<close>

fun find_colon :: "string \<Rightarrow> nat option" where
  "find_colon [] = None"
| "find_colon (c # cs) = (if c = CHR '':'' then Some 0 else map_option Suc (find_colon cs))"

definition parseVariable :: "string \<Rightarrow> CheckElement" where
  "parseVariable varElem =
     (case find_colon varElem of
        None \<Rightarrow> VarRef (take (length varElem - 2 - 2) (drop 2 varElem))
      | Some colonPos \<Rightarrow>
          VarDef (take (colonPos - 2) (drop 2 varElem))
                 (take (length varElem - 2 - (colonPos + 1)) (drop (colonPos + 1) varElem)))"

subsection \<open>The three searches of the parser\<close>

text \<open>
  \<open>__parse\<close> searches the rest of the line with three fixed patterns. None of them
  looks at the text before the match, so the leftmost match of \<open>re.search\<close> is the first
  suffix on which the anchored match succeeds (\<open>search_by\<close>).
  \<^item> \<open>\s+\<close>: a maximal run of whitespace (\<open>match_whitespace\<close>);
  \<^item> \<open>\{\{.+?\}\}\<close>: two opening braces, one character, then as few characters as
    possible up to two closing braces; the dot takes no newline (\<open>match_pattern\<close>);
  \<^item> \<open>\[\[[a-zA-Z][a-zA-Z0-9]*(:.+?)?\]\]\<close>: two opening brackets, a name, and either a
    colon with a lazy non-empty body or nothing, then two closing brackets
    (\<open>match_variable\<close>).
\<close>

fun search_by :: "(string \<Rightarrow> nat option) \<Rightarrow> string \<Rightarrow> (nat \<times> nat) option" where
  "search_by m [] = map_option (\<lambda>e. (0, e)) (m [])"
| "search_by m (c # cs) =
     (case m (c # cs) of
        Some e \<Rightarrow> Some (0, e)
      | None \<Rightarrow> map_option (\<lambda>(s, e). (Suc s, Suc e)) (search_by m cs))"

definition match_whitespace :: "string \<Rightarrow> nat option" where
  "match_whitespace s =
     (let n = length (takeWhile isspace s) in if n = 0 then None else Some n)"

text \<open>
  \<open>lazy_until close s\<close>: the lazy tail of \<open>.+?\<close> followed by \<open>close\<close>: the number of
  characters up to and including the first \<open>close\<close>, when no newline comes before it.
\<close>

fun lazy_until :: "string \<Rightarrow> string \<Rightarrow> nat option" where
  "lazy_until close [] = (if close = [] then Some 0 else None)"
| "lazy_until close (c # cs) =
     (if startswith (c # cs) close then Some (length close)
      else if c = CHR 0x0A then None
      else map_option Suc (lazy_until close cs))"

fun match_pattern :: "string \<Rightarrow> nat option" where
  "match_pattern (a # b # c # rest) =
     (if a = CHR ''{'' \<and> b = CHR ''{'' \<and> c \<noteq> CHR 0x0A
      then map_option (\<lambda>k. k + 3) (lazy_until ''}}'' rest) else None)"
| "match_pattern _ = None"

definition match_variable_tail :: "string \<Rightarrow> nat option" where
  "match_variable_tail s =
     (case s of
        c # d # rest \<Rightarrow>
          (if c = CHR '':'' then
             (if d \<noteq> CHR 0x0A then map_option (\<lambda>k. k + 2) (lazy_until '']]'' rest) else None)
           else if c = CHR '']'' \<and> d = CHR '']'' then Some 2 else None)
      | _ \<Rightarrow> None)"

fun match_variable :: "string \<Rightarrow> nat option" where
  "match_variable (a # b # c # rest) =
     (if a = CHR ''['' \<and> b = CHR ''['' \<and> isalpha c
      then (let name = takeWhile isalnum rest
            in map_option (\<lambda>k. k + 3 + length name)
                 (match_variable_tail (dropWhile isalnum rest)))
      else None)"
| "match_variable _ = None"

definition isMatchAtStart :: "(nat \<times> nat) option \<Rightarrow> bool" where
  "isMatchAtStart m = (case m of None \<Rightarrow> False | Some (s, e) \<Rightarrow> s = 0)"

definition firstMatch :: "(nat \<times> nat) option list \<Rightarrow> string \<Rightarrow> nat" where
  "firstMatch matches str =
     Min (set (map (\<lambda>m. case m of None \<Rightarrow> length str | Some (s, e) \<Rightarrow> s) matches))"

definition match_end :: "(nat \<times> nat) option \<Rightarrow> nat" where
  "match_end m = (case m of None \<Rightarrow> 0 | Some (s, e) \<Rightarrow> e)"

abbreviation backslash :: char where
  "backslash \<equiv> CHR 0x5C"

lemma search_by_start_end: "search_by m s = Some (st, en) \<Longrightarrow> m (drop st s) = Some (en - st) \<and> st \<le> en"
proof (induction s arbitrary: st en)
  case Nil
  then show ?case by auto
next
  case (Cons c cs)
  then show ?case
    by (cases "m (c # cs)") (auto split: option.splits)
qed

lemma lazy_until_pos: "lazy_until close s = Some k \<Longrightarrow> close \<noteq> [] \<Longrightarrow> 0 < k"
  by (induction s arbitrary: k) (auto split: if_splits)

lemma match_whitespace_pos: "match_whitespace s = Some k \<Longrightarrow> 0 < k"
  by (auto simp: match_whitespace_def Let_def split: if_splits)

lemma match_pattern_pos: "match_pattern s = Some k \<Longrightarrow> 0 < k"
  by (cases s rule: match_pattern.cases) (auto split: if_splits)

lemma match_variable_pos: "match_variable s = Some k \<Longrightarrow> 0 < k"
  by (cases s rule: match_variable.cases) (auto split: if_splits)

lemma match_at_start_end:
  assumes "isMatchAtStart (search_by m s)" and "\<And>t k. m t = Some k \<Longrightarrow> 0 < k"
  shows "0 < match_end (search_by m s)"
proof -
  from assms(1) obtain en where e: "search_by m s = Some (0, en)"
    by (auto simp: isMatchAtStart_def split: option.splits)
  from search_by_start_end[OF e] assms(2) have "0 < en" by fastforce
  with e show ?thesis by (simp add: match_end_def)
qed

lemma firstMatch_pos:
  assumes "line \<noteq> []" and "\<not> isMatchAtStart a" and "\<not> isMatchAtStart b" and "\<not> isMatchAtStart c"
  shows "0 < firstMatch [a, b, c] line"
  using assms
  by (auto simp: firstMatch_def isMatchAtStart_def split: option.splits)

subsection \<open>Parsing a check line\<close>

text \<open>
  \<open>__parse\<close>: the loop runs while the line is not empty and appends one element per
  round; the model returns the element of this round in front of those of the rest.
  The only exception is the one for a variable definition in a \<open>Not\<close> line.
\<close>

definition isVarDef :: "CheckElement \<Rightarrow> bool" where
  "isVarDef elem = (case elem of VarDef n b \<Rightarrow> True | _ \<Rightarrow> False)"

function parse :: "regex_engine \<Rightarrow> LineVariant \<Rightarrow> int \<Rightarrow> string \<Rightarrow> error + CheckElement list" where
  "parse eng var lno line =
     (if line = [] then Inr []
      else if isMatchAtStart (search_by match_whitespace line) then
        (case parse eng var lno (drop (match_end (search_by match_whitespace line)) line) of
           Inl e \<Rightarrow> Inl e
         | Inr ps \<Rightarrow> Inr (parsePattern (''{{'' @ backslash # ''s+}}'') # ps))
      else if isMatchAtStart (search_by match_pattern line) then
        (case parse eng var lno (drop (match_end (search_by match_pattern line)) line) of
           Inl e \<Rightarrow> Inl e
         | Inr ps \<Rightarrow>
             Inr (parsePattern (take (match_end (search_by match_pattern line)) line) # ps))
      else if isMatchAtStart (search_by match_variable line) then
        (if var = Not \<and>
            isVarDef (parseVariable (take (match_end (search_by match_variable line)) line))
         then Inl (NotLineDefinesVariable lno)
         else
           (case parse eng var lno (drop (match_end (search_by match_variable line)) line) of
              Inl e \<Rightarrow> Inl e
            | Inr ps \<Rightarrow>
                Inr (parseVariable (take (match_end (search_by match_variable line)) line) # ps)))
      else
        (case parse eng var lno
                (drop (firstMatch [search_by match_whitespace line, search_by match_pattern line,
                                   search_by match_variable line] line) line) of
           Inl e \<Rightarrow> Inl e
         | Inr ps \<Rightarrow>
             Inr (parseText eng
                    (take (firstMatch [search_by match_whitespace line, search_by match_pattern line,
                                       search_by match_variable line] line) line) # ps)))"
  by pat_completeness auto
termination
proof (relation "measure (\<lambda>(eng, var, lno, line). length line)", goal_cases)
  case 1
  show ?case by simp
next
  case (2 eng var lno line)
  then show ?case
    using match_at_start_end[of match_whitespace line] match_whitespace_pos by auto
next
  case (3 eng var lno line)
  then show ?case
    using match_at_start_end[of match_pattern line] match_pattern_pos by auto
next
  case (4 eng var lno line)
  then show ?case
    using match_at_start_end[of match_variable line] match_variable_pos by auto
next
  case (5 eng var lno line)
  then show ?case
    using firstMatch_pos[of line "search_by match_whitespace line" "search_by match_pattern line"
        "search_by match_variable line"] by auto
qed

text \<open>\<open>CheckLine.__init__\<close>: the content is stripped, parsed, and must give an element.\<close>

definition CheckLine_init :: "regex_engine \<Rightarrow> string \<Rightarrow> LineVariant \<Rightarrow> int \<Rightarrow> error + CheckLine" where
  "CheckLine_init eng cont var lno =
     (case parse eng var lno (strip cont) of
        Inl e \<Rightarrow> Inl e
      | Inr parts \<Rightarrow>
          if parts = [] then Inl EmptyCheckLine
          else Inr \<lparr>content = strip cont, variant = var, lineNo = lno, lineParts = parts\<rparr>)"

section \<open>Matching a check line against an output line\<close>

text \<open>
  The variable state is a Python dictionary from names to captured strings; the model keeps
  it as the list of its items in insertion order. A key is never stored twice: the only
  store is guarded by the redefinition check. Where the source can hold \<open>None\<close> in the
  variable for the state, the model has \<open>varstate option\<close>.
\<close>

type_synonym varstate = "(string \<times> string) list"

text \<open>
  \<open>__generatePattern\<close>: indexing \<open>None\<close> raises \<open>TypeError\<close>, which the handler for
  \<open>KeyError\<close> does not catch.
\<close>

definition generatePattern :: "regex_engine \<Rightarrow> CheckElement \<Rightarrow> varstate option \<Rightarrow> error + string" where
  "generatePattern eng linePart varState =
     (case linePart of
        VarRef name \<Rightarrow>
          (case varState of
             None \<Rightarrow> Inl TypeError
           | Some vs \<Rightarrow>
               (case map_of vs name of
                  None \<Rightarrow> Inl (UndefinedVariable name)
                | Some v \<Rightarrow> Inr (re_escape eng v)))
      | Text p \<Rightarrow> Inr p
      | Pattern p \<Rightarrow> Inr p
      | VarDef name body \<Rightarrow> Inr body)"

text \<open>
  The inner \<open>for\<close> loop of \<open>CheckLine.match\<close>: the parts are matched one after the
  other from \<open>matchStart\<close>, each anchored where the previous one ended. \<open>Inr None\<close> is
  \<open>fullyMatched = False\<close>, \<open>Inr (Some vs)\<close> is the shadow state after the last part.
\<close>

fun match_parts :: "regex_engine \<Rightarrow> CheckElement list \<Rightarrow> string \<Rightarrow> nat \<Rightarrow> varstate \<Rightarrow> error + varstate option" where
  "match_parts eng [] outputLine matchStart varState = Inr (Some varState)"
| "match_parts eng (part # rest) outputLine matchStart varState =
     (case generatePattern eng part (Some varState) of
        Inl e \<Rightarrow> Inl e
      | Inr pat \<Rightarrow>
          (case re_match eng pat (drop matchStart outputLine) of
             ReError \<Rightarrow> Inl RegexError
           | ReNone \<Rightarrow> Inr None
           | ReSome en \<Rightarrow>
               (case part of
                  VarDef name body \<Rightarrow>
                    if name \<in> fst ` set varState then Inl (RedefinedVariable name)
                    else match_parts eng rest outputLine (matchStart + en)
                           (varState @ [(name, take en (drop matchStart outputLine))])
                | _ \<Rightarrow> match_parts eng rest outputLine (matchStart + en) varState)))"

text \<open>
  The \<open>while True\<close> loop of \<open>CheckLine.match\<close>. Nothing in the source bounds it, so
  the model is a partial function: the value \<open>None\<close> of the outer option is a loop that
  never returns. Inside, \<open>Inl e\<close> is an exception, \<open>Inr None\<close> the result \<open>None\<close>
  (no match) and \<open>Inr (Some vs)\<close> the new variable state. \<open>dict(None)\<close> raises
  \<open>TypeError\<close>.
\<close>

partial_function (option) match_loop ::
  "regex_engine \<Rightarrow> CheckElement list \<Rightarrow> string \<Rightarrow> varstate option \<Rightarrow> string \<Rightarrow> nat
     \<Rightarrow> (error + varstate option) option" where
  "match_loop eng parts outputLine initialVarState initialPattern initialSearchFrom =
     (case re_search eng initialPattern (drop initialSearchFrom outputLine) of
        ReError \<Rightarrow> Some (Inl RegexError)
      | ReNone \<Rightarrow> Some (Inr None)
      | ReSome m \<Rightarrow>
          (case initialVarState of
             None \<Rightarrow> Some (Inl TypeError)
           | Some varState \<Rightarrow>
               (case match_parts eng parts outputLine (initialSearchFrom + fst m) varState of
                  Inl e \<Rightarrow> Some (Inl e)
                | Inr (Some vs) \<Rightarrow> Some (Inr (Some vs))
                | Inr None \<Rightarrow>
                    match_loop eng parts outputLine initialVarState initialPattern
                      (initialSearchFrom + fst m + 1))))"

definition CheckLine_match :: "regex_engine \<Rightarrow> CheckLine \<Rightarrow> string \<Rightarrow> varstate option
     \<Rightarrow> (error + varstate option) option" where
  "CheckLine_match eng checkLine outputLine initialVarState =
     (case lineParts checkLine of
        [] \<Rightarrow> Some (Inl IndexError)
      | part0 # rest \<Rightarrow>
          (case generatePattern eng part0 initialVarState of
             Inl e \<Rightarrow> Some (Inl e)
           | Inr initialPattern \<Rightarrow>
               match_loop eng (lineParts checkLine) outputLine initialVarState initialPattern 0))"

section \<open>Check groups\<close>

record CheckGroup =
  name :: string
  lines :: "CheckLine list"

record OutputGroup =
  oname :: string
  body :: "string list"

definition CheckGroup_init :: "string \<Rightarrow> CheckLine list \<Rightarrow> error + CheckGroup" where
  "CheckGroup_init nm ls =
     (if nm = [] then Inl CheckGroupNoName
      else if ls = [] then Inl (CheckGroupNoBody nm)
      else Inr \<lparr>name = nm, lines = ls\<rparr>)"

definition OutputGroup_init :: "string \<Rightarrow> string list \<Rightarrow> error + OutputGroup" where
  "OutputGroup_init nm b =
     (if nm = [] then Inl OutputGroupNoName
      else if b = [] then Inl (OutputGroupNoBody nm)
      else Inr \<lparr>oname = nm, body = b\<rparr>)"

definition splitByVariant :: "CheckLine list \<Rightarrow> LineVariant \<Rightarrow> CheckLine list \<times> CheckLine list" where
  "splitByVariant ls var =
     (takeWhile (\<lambda>l. variant l = var) ls, dropWhile (\<lambda>l. variant l = var) ls)"

text \<open>
  \<open>__nextIndependentChecks\<close>. When the head is not \<open>InOrder\<close> it is \<open>DAG\<close>, as the
  \<open>Not\<close> lines were split off before; the model keeps the assertion all the same.
\<close>

definition nextIndependentChecks ::
  "CheckLine list \<Rightarrow> error + (CheckLine list \<times> CheckLine list \<times> CheckLine list)" where
  "nextIndependentChecks checkLines =
     (let (notChecks, checkLines') = splitByVariant checkLines Not in
      case checkLines' of
        [] \<Rightarrow> Inr (notChecks, [], [])
      | head # tail \<Rightarrow>
          if variant head = InOrder then Inr (notChecks, [head], tail)
          else if variant head \<noteq> DAG then Inl AssertionError
          else (let (independentChecks, checkLines'') = splitByVariant checkLines' DAG
                in Inr (notChecks, independentChecks, checkLines'')))"

text \<open>
  \<open>__findFirstMatch\<close>: output lines are numbered from 1; a number in \<open>lineFilter\<close> is
  skipped. The source returns \<open>(matchLineNo, newVarState)\<close> or \<open>(-1, None)\<close>; the
  model's \<open>Inr None\<close> is the pair \<open>(-1, None)\<close>.
\<close>

fun findFirstMatch_from :: "regex_engine \<Rightarrow> CheckLine \<Rightarrow> string list \<Rightarrow> nat list \<Rightarrow> varstate option \<Rightarrow> nat
     \<Rightarrow> (error + (nat \<times> varstate) option) option" where
  "findFirstMatch_from eng checkLine [] lineFilter varState matchLineNo = Some (Inr None)"
| "findFirstMatch_from eng checkLine (outputLine # outputLines) lineFilter varState matchLineNo =
     (if matchLineNo + 1 \<in> set lineFilter
      then findFirstMatch_from eng checkLine outputLines lineFilter varState (matchLineNo + 1)
      else
        (case CheckLine_match eng checkLine outputLine varState of
           None \<Rightarrow> None
         | Some (Inl e) \<Rightarrow> Some (Inl e)
         | Some (Inr (Some newVarState)) \<Rightarrow> Some (Inr (Some (matchLineNo + 1, newVarState)))
         | Some (Inr None) \<Rightarrow>
             findFirstMatch_from eng checkLine outputLines lineFilter varState (matchLineNo + 1)))"

definition findFirstMatch :: "regex_engine \<Rightarrow> CheckLine \<Rightarrow> string list \<Rightarrow> nat list \<Rightarrow> varstate option
     \<Rightarrow> (error + (nat \<times> varstate) option) option" where
  "findFirstMatch eng checkLine outputLines lineFilter varState =
     findFirstMatch_from eng checkLine outputLines lineFilter varState 0"

text \<open>
  The \<open>for\<close> loop of \<open>__matchIndependentChecks\<close>: it returns the list of matched line
  numbers and the variable state after the last check line.
\<close>

fun matchChecks :: "regex_engine \<Rightarrow> CheckLine list \<Rightarrow> string list \<Rightarrow> nat list \<Rightarrow> varstate
     \<Rightarrow> (error + (nat list \<times> varstate)) option" where
  "matchChecks eng [] outputLines matchedLines varState = Some (Inr (matchedLines, varState))"
| "matchChecks eng (checkLine # checkLines) outputLines matchedLines varState =
     (case findFirstMatch eng checkLine outputLines matchedLines (Some varState) of
        None \<Rightarrow> None
      | Some (Inl e) \<Rightarrow> Some (Inl e)
      | Some (Inr None) \<Rightarrow> Some (Inl (CouldNotMatchLine checkLine))
      | Some (Inr (Some (matchLineNo, varState'))) \<Rightarrow>
          matchChecks eng checkLines outputLines (matchedLines @ [matchLineNo]) varState')"

text \<open>
  \<open>__matchIndependentChecks\<close> returns the output lines before the earliest match, those
  after the latest match, and the new variable state. Without check lines the source
  returns \<open>(outputLines, varState, [])\<close>: the first component is the whole output, as
  here; the other two come in a different order than in the other branch, and the caller
  never reads them, since its loop ends when no check lines are left. The model gives
  this branch the shape of the other one.
\<close>

definition matchIndependentChecks :: "regex_engine \<Rightarrow> CheckLine list \<Rightarrow> string list \<Rightarrow> varstate
     \<Rightarrow> (error + (string list \<times> string list \<times> varstate)) option" where
  "matchIndependentChecks eng checkLines outputLines varState =
     (if checkLines = [] then Some (Inr (outputLines, [], varState))
      else
        (case matchChecks eng checkLines outputLines [] varState of
           None \<Rightarrow> None
         | Some (Inl e) \<Rightarrow> Some (Inl e)
         | Some (Inr (matchedLines, varState')) \<Rightarrow>
             Some (Inr (take (Min (set matchedLines) - 1) outputLines,
                        drop (Max (set matchedLines)) outputLines,
                        varState'))))"

text \<open>
  \<open>__matchNotLines\<close>. The source assigns the second result of \<open>__findFirstMatch\<close> to
  its own parameter \<open>varState\<close>: after a \<open>Not\<close> line that matched nothing the
  parameter holds \<open>None\<close>, and the next \<open>Not\<close> line is matched with it.
\<close>

fun matchNotLines :: "regex_engine \<Rightarrow> CheckLine list \<Rightarrow> string list \<Rightarrow> varstate option
     \<Rightarrow> (error + unit) option" where
  "matchNotLines eng [] outputLines varState = Some (Inr ())"
| "matchNotLines eng (checkLine # checkLines) outputLines varState =
     (if variant checkLine \<noteq> Not then Some (Inl AssertionError)
      else
        (case findFirstMatch eng checkLine outputLines [] varState of
           None \<Rightarrow> None
         | Some (Inl e) \<Rightarrow> Some (Inl e)
         | Some (Inr (Some m)) \<Rightarrow> Some (Inl (NotLineMatches checkLine))
         | Some (Inr None) \<Rightarrow> matchNotLines eng checkLines outputLines None))"

lemma nextIndependentChecks_shorter:
  assumes "nextIndependentChecks checkLines = Inr (notChecks, independentChecks, rest)"
    and "checkLines \<noteq> []"
  shows "length rest < length checkLines"
proof -
  have d: "length (dropWhile P xs) \<le> length xs" for P and xs :: "CheckLine list"
    by (induction xs) auto
  show ?thesis
  proof (cases "dropWhile (\<lambda>l. variant l = Not) checkLines")
    case Nil
    with assms show ?thesis
      by (auto simp: nextIndependentChecks_def splitByVariant_def)
  next
    case (Cons h t)
    have t: "length t < length checkLines"
      using d[of "\<lambda>l. variant l = Not" checkLines] Cons by simp
    have "length (dropWhile (\<lambda>l. variant l = DAG) t) < length checkLines"
      using d[of "\<lambda>l. variant l = DAG" t] t by simp
    with assms Cons t show ?thesis
      by (auto simp: nextIndependentChecks_def splitByVariant_def split: if_splits)
  qed
qed

text \<open>
  The \<open>while\<close> loop of \<open>CheckGroup.match\<close>. The \<open>Not\<close> lines are run with the variable
  state from before the independent checks. \<open>Some (Inr ())\<close> is a normal return (the
  group passes), \<open>Some (Inl e)\<close> an exception (the group fails), \<open>None\<close> a line match
  that never returns.
\<close>

function CheckGroup_match_loop :: "regex_engine \<Rightarrow> CheckLine list \<Rightarrow> string list \<Rightarrow> varstate
     \<Rightarrow> (error + unit) option" where
  "CheckGroup_match_loop eng checkLines outputLines varState =
     (if checkLines = [] then Some (Inr ())
      else
        (case nextIndependentChecks checkLines of
           Inl e \<Rightarrow> Some (Inl e)
         | Inr (notChecks, independentChecks, checkLines') \<Rightarrow>
             (case matchIndependentChecks eng independentChecks outputLines varState of
                None \<Rightarrow> None
              | Some (Inl e) \<Rightarrow> Some (Inl e)
              | Some (Inr (notOutput, outputLines', newVarState)) \<Rightarrow>
                  (case matchNotLines eng notChecks notOutput (Some varState) of
                     None \<Rightarrow> None
                   | Some (Inl e) \<Rightarrow> Some (Inl e)
                   | Some (Inr u) \<Rightarrow>
                       CheckGroup_match_loop eng checkLines' outputLines' newVarState))))"
  by pat_completeness auto
termination
  by (relation "measure (\<lambda>(eng, checkLines, outputLines, varState). length checkLines)")
     (auto dest: nextIndependentChecks_shorter)

definition CheckGroup_match :: "regex_engine \<Rightarrow> CheckGroup \<Rightarrow> OutputGroup \<Rightarrow> (error + unit) option" where
  "CheckGroup_match eng checkGroup outputGroup =
     CheckGroup_match_loop eng (lines checkGroup) (body outputGroup) []"

section \<open>Check files and output files\<close>

record OutputFile =
  ogroups :: "OutputGroup list"

text \<open>\<open>OutputFile.findGroup\<close>: the first group with the given name, or \<open>None\<close>.\<close>

fun findGroup_in :: "OutputGroup list \<Rightarrow> string \<Rightarrow> OutputGroup option" where
  "findGroup_in [] nm = None"
| "findGroup_in (g # gs) nm = (if oname g = nm then Some g else findGroup_in gs nm)"

definition findGroup :: "OutputFile \<Rightarrow> string \<Rightarrow> OutputGroup option" where
  "findGroup outputFile nm = findGroup_in (ogroups outputFile) nm"

text \<open>
  \<open>CheckFile.match\<close>: the groups are run in order; the first exception ends the run.
  Printing is left out.
\<close>

fun CheckFile_match_groups :: "regex_engine \<Rightarrow> CheckGroup list \<Rightarrow> OutputFile \<Rightarrow> (error + unit) option" where
  "CheckFile_match_groups eng [] outputFile = Some (Inr ())"
| "CheckFile_match_groups eng (checkGroup # checkGroups) outputFile =
     (case findGroup outputFile (name checkGroup) of
        None \<Rightarrow> Some (Inl (GroupNotFound (name checkGroup)))
      | Some outputGroup \<Rightarrow>
          (case CheckGroup_match eng checkGroup outputGroup of
             None \<Rightarrow> None
           | Some (Inl e) \<Rightarrow> Some (Inl e)
           | Some (Inr u) \<Rightarrow> CheckFile_match_groups eng checkGroups outputFile))"

record CheckFile =
  prefix :: string
  groups :: "CheckGroup list"

definition CheckFile_match :: "regex_engine \<Rightarrow> CheckFile \<Rightarrow> OutputFile \<Rightarrow> (error + unit) option" where
  "CheckFile_match eng checkFile outputFile = CheckFile_match_groups eng (groups checkFile) outputFile"

text \<open>
  \<open>CheckFile._extractLine\<close>: the prefix is put into the pattern as it is, after
  optional whitespace, a comment symbol and optional whitespace, and before a colon.
\<close>

definition prefixRegex :: "string \<Rightarrow> string" where
  "prefixRegex pre =
     backslash # ''s*'' @ ''('' @ ''//'' @ ''|'' @ ''#'' @ '')'' @ backslash # ''s*'' @ pre @ '':''"

definition extractLine :: "regex_engine \<Rightarrow> string \<Rightarrow> string \<Rightarrow> error + string option" where
  "extractLine eng pre line =
     (case re_match eng (prefixRegex pre) line of
        ReError \<Rightarrow> Inl RegexError
      | ReNone \<Rightarrow> Inr None
      | ReSome en \<Rightarrow> Inr (Some (strip (drop en line))))"

text \<open>
  \<open>CheckFile._processLine\<close> returns the pair of the processed line (the text and the
  variant of a check line) and the name of a new group.
\<close>

definition processLine :: "regex_engine \<Rightarrow> string \<Rightarrow> string \<Rightarrow> error + ((string \<times> LineVariant) option \<times> string option)" where
  "processLine eng pre line =
     (case extractLine eng (pre @ ''-START'') line of
        Inl e \<Rightarrow> Inl e
      | Inr (Some startLine) \<Rightarrow> Inr (None, Some startLine)
      | Inr None \<Rightarrow>
     (case extractLine eng pre line of
        Inl e \<Rightarrow> Inl e
      | Inr (Some plainLine) \<Rightarrow> Inr (Some (plainLine, InOrder), None)
      | Inr None \<Rightarrow>
     (case extractLine eng (pre @ ''-DAG'') line of
        Inl e \<Rightarrow> Inl e
      | Inr (Some dagLine) \<Rightarrow> Inr (Some (dagLine, DAG), None)
      | Inr None \<Rightarrow>
     (case extractLine eng (pre @ ''-NOT'') line of
        Inl e \<Rightarrow> Inl e
      | Inr (Some notLine) \<Rightarrow> Inr (Some (notLine, Not), None)
      | Inr None \<Rightarrow> Inr (None, None)))))"

text \<open>
  \<open>CheckFile._exceptionLineOutsideGroup\<close> raises the exception for a check line outside
  a group. Nothing in the source calls it.
\<close>

definition exceptionLineOutsideGroup :: "string \<Rightarrow> int \<Rightarrow> error + 'a" where
  "exceptionLineOutsideGroup line lineNumber = Inl (LineOutsideGroup lineNumber)"

text \<open>
  The \<open>for\<close> loop of \<open>FileSplitMixin._parseStream\<close>, for a check file. \<open>allGroups\<close>
  is the list of the groups so far, the current group being its last element;
  \<open>currentGroup\<close> is \<open>None\<close> until the first group starts, so \<open>hasGroup\<close> is false
  exactly while \<open>allGroups\<close> is empty. A processed line is appended to the current
  group; with no current group, subscripting \<open>None\<close> raises \<open>TypeError\<close>.
\<close>

fun parseStream_loop :: "regex_engine \<Rightarrow> string \<Rightarrow> string list \<Rightarrow> (string \<times> (string \<times> LineVariant) list) list
     \<Rightarrow> error + (string \<times> (string \<times> LineVariant) list) list" where
  "parseStream_loop eng pre [] allGroups = Inr allGroups"
| "parseStream_loop eng pre (line # stream) allGroups =
     (if strip line = [] then parseStream_loop eng pre stream allGroups
      else
        (case processLine eng pre (strip line) of
           Inl e \<Rightarrow> Inl e
         | Inr (processedLine, newGroupName) \<Rightarrow>
             (let allGroups' =
                    (case newGroupName of
                       None \<Rightarrow> allGroups
                     | Some nm \<Rightarrow> allGroups @ [(nm, [])])
              in case processedLine of
                   None \<Rightarrow> parseStream_loop eng pre stream allGroups'
                 | Some pl \<Rightarrow>
                     if allGroups' = [] then Inl TypeError
                     else parseStream_loop eng pre stream
                            (butlast allGroups' @
                               [(fst (last allGroups'), snd (last allGroups') @ [pl])]))))"

text \<open>\<open>CheckFile._processGroup\<close>: the check lines are built with the default line number.\<close>

fun build_lines :: "regex_engine \<Rightarrow> (string \<times> LineVariant) list \<Rightarrow> error + CheckLine list" where
  "build_lines eng [] = Inr []"
| "build_lines eng (l # ls) =
     (case CheckLine_init eng (fst l) (snd l) (- 1) of
        Inl e \<Rightarrow> Inl e
      | Inr cl \<Rightarrow> (case build_lines eng ls of Inl e \<Rightarrow> Inl e | Inr cls \<Rightarrow> Inr (cl # cls)))"

definition processGroup :: "regex_engine \<Rightarrow> string \<Rightarrow> (string \<times> LineVariant) list \<Rightarrow> error + CheckGroup" where
  "processGroup eng nm ls =
     (case build_lines eng ls of Inl e \<Rightarrow> Inl e | Inr checkLines \<Rightarrow> CheckGroup_init nm checkLines)"

fun process_groups :: "regex_engine \<Rightarrow> (string \<times> (string \<times> LineVariant) list) list \<Rightarrow> error + CheckGroup list" where
  "process_groups eng [] = Inr []"
| "process_groups eng (g # gs) =
     (case processGroup eng (fst g) (snd g) of
        Inl e \<Rightarrow> Inl e
      | Inr cg \<Rightarrow> (case process_groups eng gs of Inl e \<Rightarrow> Inl e | Inr cgs \<Rightarrow> Inr (cg # cgs)))"

definition parseStream :: "regex_engine \<Rightarrow> string \<Rightarrow> string list \<Rightarrow> error + CheckGroup list" where
  "parseStream eng pre stream =
     (case parseStream_loop eng pre stream [] of
        Inl e \<Rightarrow> Inl e
      | Inr allGroups \<Rightarrow> process_groups eng allGroups)"

definition CheckFile_init :: "regex_engine \<Rightarrow> string \<Rightarrow> string list \<Rightarrow> error + CheckFile" where
  "CheckFile_init eng pre checkStream =
     (case parseStream eng pre checkStream of
        Inl e \<Rightarrow> Inl e
      | Inr gs \<Rightarrow> Inr \<lparr>prefix = pre, groups = gs\<rparr>)"

section \<open>An engine for a fragment of Python's regular expressions\<close>

text \<open>
  To run the model on concrete lines, \<open>py_re\<close> implements the engine for patterns made
  of: a character, an escaped character, the classes \<open>\s\<close>, \<open>\d\<close>, \<open>.\<close> and
  \<open>[a-z...]\<close>, each with an optional greedy \<open>+\<close>, \<open>*\<close> or \<open>?\<close>, and a group of
  literal alternatives \<open>(ab|c)\<close>. Any other pattern is an error of the engine. Matching
  is leftmost, greedy and backtracking, as in \<open>re\<close>; \<open>py_escape\<close> puts a backslash
  before every character that is not a letter, a digit or an underscore.
\<close>

datatype cclass = CChar char | CSpace | CDigit | CAny | CSet "(char \<times> char) list"

datatype quant = QOne | QPlus | QStar | QOpt

datatype atom = Atom cclass quant | Alt "string list"

fun in_class :: "cclass \<Rightarrow> char \<Rightarrow> bool" where
  "in_class (CChar d) c = (c = d)"
| "in_class CSpace c = isspace c"
| "in_class CDigit c = isdigit c"
| "in_class CAny c = (c \<noteq> CHR 0x0A)"
| "in_class (CSet rs) c =
     list_ex (\<lambda>(lo, hi). (of_char lo :: nat) \<le> of_char c \<and> (of_char c :: nat) \<le> of_char hi) rs"

definition py_escape :: "string \<Rightarrow> string" where
  "py_escape s = concat (map (\<lambda>c. if isalnum c \<or> c = CHR ''_'' then [c] else [backslash, c]) s)"

definition is_special :: "char \<Rightarrow> bool" where
  "is_special c = (c \<in> set (backslash # ''.^$*+?{}[]|()''))"

fun parse_quant :: "string \<Rightarrow> quant \<times> string" where
  "parse_quant [] = (QOne, [])"
| "parse_quant (c # cs) =
     (if c = CHR ''+'' then (QPlus, cs)
      else if c = CHR ''*'' then (QStar, cs)
      else if c = CHR ''?'' then (QOpt, cs)
      else (QOne, c # cs))"

definition escape_class :: "char \<Rightarrow> cclass option" where
  "escape_class d =
     (if d = CHR ''s'' then Some CSpace
      else if d = CHR ''d'' then Some CDigit
      else if isalnum d then None
      else Some (CChar d))"

text \<open>The items of a set \<open>[...]\<close>: single characters and ranges \<open>a-z\<close>.\<close>

definition set_bad :: "char \<Rightarrow> bool" where
  "set_bad a = (a = backslash \<or> a = CHR ''^'' \<or> a = CHR ''['' \<or> a = CHR ''-'')"

fun set_items :: "string \<Rightarrow> (char \<times> char) list option" where
  "set_items [] = Some []"
| "set_items (a # b # c # rest) =
     (if set_bad a then None
      else if b = CHR ''-'' then
        (if set_bad c then None else map_option ((#) (a, c)) (set_items rest))
      else map_option ((#) (a, a)) (set_items (b # c # rest)))"
| "set_items (a # rest) =
     (if set_bad a then None else map_option ((#) (a, a)) (set_items rest))"

text \<open>The alternatives of a group \<open>(ab|c)\<close>, split at the bars.\<close>

fun split_bar :: "string \<Rightarrow> string list" where
  "split_bar [] = [[]]"
| "split_bar (c # cs) =
     (if c = CHR ''|'' then [] # split_bar cs
      else (case split_bar cs of [] \<Rightarrow> [[c]] | a # as \<Rightarrow> (c # a) # as))"

lemma parse_quant_length: "length (snd (parse_quant s)) \<le> length s"
  by (cases s) auto

lemma dropWhile_tl_length: "length (tl (dropWhile P xs)) \<le> length xs"
  by (induction xs) auto

function parse_rx :: "string \<Rightarrow> atom list option" where
  "parse_rx [] = Some []"
| "parse_rx (c # cs) =
     (if c = backslash then
        (case cs of
           [] \<Rightarrow> None
         | d # ds \<Rightarrow>
             (case escape_class d of
                None \<Rightarrow> None
              | Some cl \<Rightarrow>
                  map_option ((#) (Atom cl (fst (parse_quant ds)))) (parse_rx (snd (parse_quant ds)))))
      else if c = CHR ''.'' then
        map_option ((#) (Atom CAny (fst (parse_quant cs)))) (parse_rx (snd (parse_quant cs)))
      else if c = CHR ''['' then
        (case set_items (takeWhile (\<lambda>x. x \<noteq> CHR '']'') cs) of
           None \<Rightarrow> None
         | Some rs \<Rightarrow>
             if rs = [] \<or> dropWhile (\<lambda>x. x \<noteq> CHR '']'') cs = [] then None
             else map_option
                    ((#) (Atom (CSet rs)
                            (fst (parse_quant (tl (dropWhile (\<lambda>x. x \<noteq> CHR '']'') cs))))))
                    (parse_rx (snd (parse_quant (tl (dropWhile (\<lambda>x. x \<noteq> CHR '']'') cs))))))
      else if c = CHR ''('' then
        (if dropWhile (\<lambda>x. x \<noteq> CHR '')'') cs = [] \<or>
            list_ex (\<lambda>x. x \<noteq> CHR ''|'' \<and> is_special x) (takeWhile (\<lambda>x. x \<noteq> CHR '')'') cs)
         then None
         else map_option ((#) (Alt (split_bar (takeWhile (\<lambda>x. x \<noteq> CHR '')'') cs))))
                (parse_rx (tl (dropWhile (\<lambda>x. x \<noteq> CHR '')'') cs))))
      else if is_special c then None
      else map_option ((#) (Atom (CChar c) (fst (parse_quant cs)))) (parse_rx (snd (parse_quant cs))))"
  by pat_completeness auto
termination
proof (relation "measure length", goal_cases)
  case 1
  show ?case by simp
next
  case (2 c cs d ds cl)
  then show ?case using parse_quant_length[of ds] by simp
next
  case (3 c cs)
  then show ?case using parse_quant_length[of cs] by simp
next
  case (4 c cs rs)
  then show ?case
    using parse_quant_length[of "tl (dropWhile (\<lambda>x. x \<noteq> CHR '']'') cs)"]
      dropWhile_tl_length[of "\<lambda>x. x \<noteq> CHR '']''" cs]
    by simp
next
  case (5 c cs)
  then show ?case using dropWhile_tl_length[of "\<lambda>x. x \<noteq> CHR '')''" cs] by simp
next
  case (6 c cs)
  then show ?case using parse_quant_length[of cs] by simp
qed

fun first_some :: "'a option list \<Rightarrow> 'a option" where
  "first_some [] = None"
| "first_some (x # xs) = (case x of Some v \<Rightarrow> Some v | None \<Rightarrow> first_some xs)"

fun rx_match :: "atom list \<Rightarrow> string \<Rightarrow> nat option" where
  "rx_match [] s = Some 0"
| "rx_match (Atom cl q # r) [] = (if q = QStar \<or> q = QOpt then rx_match r [] else None)"
| "rx_match (Atom cl q # r) (x # xs) =
     (if \<not> in_class cl x then (if q = QStar \<or> q = QOpt then rx_match r (x # xs) else None)
      else
        (case q of
           QOne \<Rightarrow> map_option Suc (rx_match r xs)
         | QPlus \<Rightarrow> map_option Suc (rx_match (Atom cl QStar # r) xs)
         | QStar \<Rightarrow>
             (case rx_match (Atom cl QStar # r) xs of
                Some n \<Rightarrow> Some (Suc n)
              | None \<Rightarrow> rx_match r (x # xs))
         | QOpt \<Rightarrow>
             (case rx_match r xs of
                Some n \<Rightarrow> Some (Suc n)
              | None \<Rightarrow> rx_match r (x # xs))))"
| "rx_match (Alt as # r) s =
     first_some (map (\<lambda>a. if startswith s a
                            then map_option ((+) (length a)) (rx_match r (drop (length a) s))
                            else None) as)"

definition py_search :: "string \<Rightarrow> string \<Rightarrow> (nat \<times> nat) re_result" where
  "py_search p s =
     (case parse_rx p of
        None \<Rightarrow> ReError
      | Some atoms \<Rightarrow> (case search_by (rx_match atoms) s of None \<Rightarrow> ReNone | Some m \<Rightarrow> ReSome m))"

definition py_match :: "string \<Rightarrow> string \<Rightarrow> nat re_result" where
  "py_match p s =
     (case parse_rx p of
        None \<Rightarrow> ReError
      | Some atoms \<Rightarrow> (case rx_match atoms s of None \<Rightarrow> ReNone | Some e \<Rightarrow> ReSome e))"

definition py_re :: regex_engine where
  "py_re = \<lparr>re_escape = py_escape, re_search = py_search, re_match = py_match\<rparr>"

declare match_loop.simps [code]

section \<open>Looking up output groups\<close>

lemma findGroup_in_None: "(findGroup_in gs nm = None) = (\<forall>g\<in>set gs. oname g \<noteq> nm)"
  by (induction gs) auto

lemma findGroup_in_Some:
  "findGroup_in gs nm = Some og \<Longrightarrow>
     \<exists>before after. gs = before @ og # after \<and> oname og = nm \<and> (\<forall>h\<in>set before. oname h \<noteq> nm)"
proof (induction gs)
  case Nil
  then show ?case by simp
next
  case (Cons g gs)
  show ?case
  proof (cases "oname g = nm")
    case True
    with Cons.prems have "g # gs = [] @ og # gs \<and> oname og = nm" by simp
    then show ?thesis by fastforce
  next
    case False
    with Cons obtain before after where
      b: "gs = before @ og # after" "oname og = nm" "\<forall>h\<in>set before. oname h \<noteq> nm"
      by auto
    with False have "g # gs = (g # before) @ og # after \<and> oname og = nm \<and>
        (\<forall>h\<in>set (g # before). oname h \<noteq> nm)" by simp
    then show ?thesis by blast
  qed
qed

lemma CheckFile_match_groups_not_found:
  assumes "\<forall>h\<in>set pre. \<exists>og. findGroup outputFile (name h) = Some og \<and>
             CheckGroup_match eng h og = Some (Inr ())"
    and "findGroup outputFile (name g) = None"
  shows "CheckFile_match_groups eng (pre @ g # rest) outputFile = Some (Inl (GroupNotFound (name g)))"
  using assms by (induction pre) auto

definition ex_output :: OutputFile where
  "ex_output = \<lparr>ogroups = [\<lparr>oname = ''m pass'', body = [''first'']\<rparr>,
                           \<lparr>oname = ''m pass (after)'', body = [''other'']\<rparr>,
                           \<lparr>oname = ''m pass'', body = [''second'']\<rparr>]\<rparr>"

definition ex_found_group :: CheckGroup where
  "ex_found_group = \<lparr>name = ''m pass'',
     lines = [\<lparr>content = ''first'', variant = InOrder, lineNo = - 1, lineParts = [Text ''first'']\<rparr>]\<rparr>"

definition ex_missing_group :: CheckGroup where
  "ex_missing_group = \<lparr>name = ''m pas'',
     lines = [\<lparr>content = ''first'', variant = InOrder, lineNo = - 1, lineParts = [Text ''first'']\<rparr>]\<rparr>"

text \<open>
  C8. The lookup of an output group compares names by equality: it gives \<open>None\<close> exactly
  when no group of the output file has the name, and otherwise the first group with that
  name, in the order of the file. When the groups before \<open>g\<close> of a check file are found
  and pass, and no output group has the name of \<open>g\<close>, the run of the check file raises
  the exception that names \<open>g\<close>.
\<close>

theorem findGroup_exact_first:
  assumes "\<forall>h\<in>set pre. \<exists>og. findGroup outputFile (name h) = Some og \<and>
             CheckGroup_match eng h og = Some (Inr ())"
  shows "((findGroup outputFile nm = None) = (\<forall>og\<in>set (ogroups outputFile). oname og \<noteq> nm)) \<and>
         (\<forall>og. findGroup outputFile nm = Some og \<longrightarrow>
            (\<exists>before after. ogroups outputFile = before @ og # after \<and> oname og = nm \<and>
               (\<forall>h\<in>set before. oname h \<noteq> nm))) \<and>
         ((\<forall>og\<in>set (ogroups outputFile). oname og \<noteq> name g) \<longrightarrow>
            CheckFile_match eng \<lparr>prefix = p, groups = pre @ g # rest\<rparr> outputFile =
              Some (Inl (GroupNotFound (name g))))"
proof (intro conjI allI impI)
  show "(findGroup outputFile nm = None) = (\<forall>og\<in>set (ogroups outputFile). oname og \<noteq> nm)"
    by (simp add: findGroup_def findGroup_in_None)
next
  fix og
  assume "findGroup outputFile nm = Some og"
  then show "\<exists>before after. ogroups outputFile = before @ og # after \<and> oname og = nm \<and>
      (\<forall>h\<in>set before. oname h \<noteq> nm)"
    unfolding findGroup_def by (rule findGroup_in_Some)
next
  assume "\<forall>og\<in>set (ogroups outputFile). oname og \<noteq> name g"
  then have "findGroup outputFile (name g) = None"
    by (simp add: findGroup_def findGroup_in_None)
  with assms show "CheckFile_match eng \<lparr>prefix = p, groups = pre @ g # rest\<rparr> outputFile =
      Some (Inl (GroupNotFound (name g)))"
    by (simp add: CheckFile_match_def CheckFile_match_groups_not_found)
qed

theorem findGroup_exact_first_witness:
  "findGroup ex_output ''m pass'' = Some \<lparr>oname = ''m pass'', body = [''first'']\<rparr> \<and>
   findGroup ex_output ''m pas'' = None \<and>
   CheckGroup_match py_re ex_found_group \<lparr>oname = ''m pass'', body = [''first'']\<rparr> = Some (Inr ()) \<and>
   CheckFile_match py_re \<lparr>prefix = ''CHECK'', groups = [ex_found_group] @ ex_missing_group # [ex_found_group]\<rparr>
     ex_output = Some (Inl (GroupNotFound ''m pas''))"
proof -
  have a: "findGroup ex_output (name ex_found_group) = Some \<lparr>oname = ''m pass'', body = [''first'']\<rparr>"
    by code_simp
  have b: "CheckGroup_match py_re ex_found_group \<lparr>oname = ''m pass'', body = [''first'']\<rparr> = Some (Inr ())"
    by code_simp
  have h: "\<forall>h\<in>set [ex_found_group]. \<exists>og. findGroup ex_output (name h) = Some og \<and>
             CheckGroup_match py_re h og = Some (Inr ())"
    using a b by simp
  have n: "\<forall>og\<in>set (ogroups ex_output). oname og \<noteq> name ex_missing_group"
    by code_simp
  have m: "name ex_missing_group = ''m pas''" "name ex_found_group = ''m pass''"
    by (simp_all add: ex_missing_group_def ex_found_group_def)
  from findGroup_exact_first[OF h, of "''m pas''" ex_missing_group "''CHECK''" "[ex_found_group]"] n m
  have "findGroup ex_output ''m pas'' = None" and
    "CheckFile_match py_re \<lparr>prefix = ''CHECK'', groups = [ex_found_group] @ ex_missing_group # [ex_found_group]\<rparr>
       ex_output = Some (Inl (GroupNotFound ''m pas''))"
    by simp_all
  with a b m show ?thesis by simp
qed

section \<open>Check lines outside a group\<close>

lemma parseStream_loop_outside:
  assumes "\<forall>l\<in>set pre. strip l = [] \<or> processLine eng pre_fix (strip l) = Inr (None, None)"
    and "strip line \<noteq> []"
    and "processLine eng pre_fix (strip line) = Inr (Some pl, None)"
  shows "parseStream_loop eng pre_fix (pre @ line # post) [] = Inl TypeError"
  using assms by (induction pre) auto

lemma processLine_recognized:
  assumes "processLine eng pre_fix l = Inr (Some pl, g)"
  shows "g = None \<and>
         extractLine eng (pre_fix @ ''-START'') l = Inr None \<and>
         ((snd pl = InOrder \<and> extractLine eng pre_fix l = Inr (Some (fst pl))) \<or>
          (snd pl = DAG \<and> extractLine eng (pre_fix @ ''-DAG'') l = Inr (Some (fst pl))) \<or>
          (snd pl = Not \<and> extractLine eng (pre_fix @ ''-NOT'') l = Inr (Some (fst pl))))"
  using assms by (auto simp: processLine_def split: sum.splits option.splits)

text \<open>
  For every engine: a line of the check file that is recognized as a check line (with the
  bare prefix, \<open>-DAG\<close> or \<open>-NOT\<close>: \<open>_processLine\<close> returns a processed line) and
  comes before any \<open>-START\<close> line (the lines before it are blank or not recognized)
  makes \<open>_parseStream\<close> subscript \<open>None\<close>, the current group, which raises
  \<open>TypeError\<close>.
\<close>

theorem check_line_before_start_aborts:
  assumes "\<forall>l\<in>set pre. strip l = [] \<or> processLine eng pre_fix (strip l) = Inr (None, None)"
    and "strip line \<noteq> []"
    and "processLine eng pre_fix (strip line) = Inr (Some pl, g)"
  shows "parseStream eng pre_fix (pre @ line # post) = Inl TypeError \<and>
         CheckFile_init eng pre_fix (pre @ line # post) = Inl TypeError"
proof -
  from processLine_recognized[OF assms(3)] have "g = None" by simp
  with assms have "parseStream_loop eng pre_fix (pre @ line # post) [] = Inl TypeError"
    by (simp add: parseStream_loop_outside)
  then show ?thesis by (simp add: parseStream_def CheckFile_init_def)
qed

theorem check_line_before_start_aborts_witness:
  "processLine py_re ''CHECK'' (strip ''  // CHECK-NOT: bar '') = Inr (Some (''bar'', Not), None) \<and>
   parseStream py_re ''CHECK'' ([''int x;'', '' '', ''// comment''] @ ''  // CHECK-NOT: bar '' # [''// CHECK-START: G'']) = Inl TypeError \<and>
   CheckFile_init py_re ''CHECK'' ([''int x;'', '' '', ''// comment''] @ ''  // CHECK-NOT: bar '' # [''// CHECK-START: G'']) = Inl TypeError"
proof -
  have h: "\<forall>l\<in>set [''int x;'', '' '', ''// comment'']. strip l = [] \<or> processLine py_re ''CHECK'' (strip l) = Inr (None, None)"
    by code_simp
  have n: "strip ''  // CHECK-NOT: bar '' \<noteq> []"
    by code_simp
  have r: "processLine py_re ''CHECK'' (strip ''  // CHECK-NOT: bar '') = Inr (Some (''bar'', Not), None)"
    by code_simp
  from check_line_before_start_aborts[OF h n r, of "[''// CHECK-START: G'']"] r show ?thesis
    by simp
qed

text \<open>
  C9. A check line before any \<open>-START\<close> line ends the parsing, but not with a parse
  error of the checker: the exception is the interpreter's \<open>TypeError\<close> for
  subscripting \<open>None\<close> in \<open>_parseStream\<close>, and the exception that the source defines
  for a check line outside a group is not raised. This holds for the bare prefix, for
  \<open>-DAG\<close> and for \<open>-NOT\<close>; the same check line after a \<open>-START\<close> line is parsed
  into its group.
\<close>

theorem check_line_before_start_raises_TypeError:
  "processLine py_re ''CHECK'' (strip ''// CHECK: foo'') = Inr (Some (''foo'', InOrder), None) \<and>
   CheckFile_init py_re ''CHECK'' [''// CHECK: foo''] = Inl TypeError \<and>
   CheckFile_init py_re ''CHECK'' [''// CHECK: foo''] \<noteq> exceptionLineOutsideGroup ''// CHECK: foo'' 1 \<and>
   CheckFile_init py_re ''CHECK'' [''int x;'', ''// CHECK-DAG: foo'', ''// CHECK-START: G'', ''// CHECK: a''] =
     Inl TypeError \<and>
   CheckFile_init py_re ''CHECK'' [''// CHECK-NOT: foo'', ''// CHECK-START: G'', ''// CHECK: a''] =
     Inl TypeError \<and>
   CheckFile_init py_re ''CHECK'' [''// CHECK-START: G'', ''// CHECK: foo''] =
     Inr \<lparr>prefix = ''CHECK'', groups = [\<lparr>name = ''G'', lines =
       [\<lparr>content = ''foo'', variant = InOrder, lineNo = - 1, lineParts = [Text ''foo'']\<rparr>]\<rparr>]\<rparr>"
proof -
  have a: "processLine py_re ''CHECK'' (strip ''// CHECK: foo'') = Inr (Some (''foo'', InOrder), None)"
    by code_simp
  have b: "CheckFile_init py_re ''CHECK'' [''// CHECK: foo''] = Inl TypeError"
    by code_simp
  have c: "CheckFile_init py_re ''CHECK'' [''// CHECK: foo''] \<noteq> exceptionLineOutsideGroup ''// CHECK: foo'' 1"
    unfolding b by (simp add: exceptionLineOutsideGroup_def)
  have d: "CheckFile_init py_re ''CHECK'' [''int x;'', ''// CHECK-DAG: foo'', ''// CHECK-START: G'', ''// CHECK: a''] =
     Inl TypeError"
    by code_simp
  have e: "CheckFile_init py_re ''CHECK'' [''// CHECK-NOT: foo'', ''// CHECK-START: G'', ''// CHECK: a''] =
     Inl TypeError"
    by code_simp
  have f: "CheckFile_init py_re ''CHECK'' [''// CHECK-START: G'', ''// CHECK: foo''] =
     Inr \<lparr>prefix = ''CHECK'', groups = [\<lparr>name = ''G'', lines =
       [\<lparr>content = ''foo'', variant = InOrder, lineNo = - 1, lineParts = [Text ''foo'']\<rparr>]\<rparr>]\<rparr>"
    by code_simp
  show ?thesis
    by (rule conjI[OF a conjI[OF b conjI[OF c conjI[OF d conjI[OF e f]]]]])
qed

section \<open>The variable state of a line match\<close>

definition defined_names :: "CheckElement list \<Rightarrow> string set" where
  "defined_names parts = set (concat (map (\<lambda>p. case p of VarDef n b \<Rightarrow> [n] | _ \<Rightarrow> []) parts))"

lemma defined_names_Cons:
  "defined_names (p # ps) = (case p of VarDef n b \<Rightarrow> {n} | _ \<Rightarrow> {}) \<union> defined_names ps"
  by (cases p) (auto simp: defined_names_def)

lemma match_parts_extends:
  "match_parts eng parts out ms vs = Inr (Some vs') \<Longrightarrow>
     \<exists>added. vs' = vs @ added \<and> fst ` set added \<subseteq> defined_names parts \<and>
       fst ` set added \<inter> fst ` set vs = {} \<and> distinct (map fst added)"
proof (induction parts arbitrary: ms vs)
  case Nil
  then show ?case by simp
next
  case (Cons p ps)
  from Cons.prems obtain pat en where
    g: "generatePattern eng p (Some vs) = Inr pat" and
    m: "re_match eng pat (drop ms out) = ReSome en"
    by (auto split: sum.splits re_result.splits)
  show ?case
  proof (cases p)
    case (VarDef n b)
    with Cons.prems g m have fresh: "n \<notin> fst ` set vs" and
      r: "match_parts eng ps out (ms + en) (vs @ [(n, take en (drop ms out))]) = Inr (Some vs')"
      by (auto split: if_splits)
    from Cons.IH[OF r] obtain added where
      a: "vs' = (vs @ [(n, take en (drop ms out))]) @ added"
        "fst ` set added \<subseteq> defined_names ps"
        "fst ` set added \<inter> fst ` set (vs @ [(n, take en (drop ms out))]) = {}"
        "distinct (map fst added)"
      by blast
    let ?added = "(n, take en (drop ms out)) # added"
    have "vs' = vs @ ?added" using a(1) by simp
    moreover have "fst ` set ?added \<subseteq> defined_names (p # ps)"
      using a(2) VarDef by (auto simp: defined_names_Cons)
    moreover have "fst ` set ?added \<inter> fst ` set vs = {}"
      using a(3) fresh by auto
    moreover have "distinct (map fst ?added)"
      using a(3,4) by auto
    ultimately show ?thesis by blast
  next
    case (Text t)
    with Cons.prems g m have r: "match_parts eng ps out (ms + en) vs = Inr (Some vs')" by simp
    from Cons.IH[OF r] show ?thesis by (auto simp: defined_names_Cons Text)
  next
    case (Pattern t)
    with Cons.prems g m have r: "match_parts eng ps out (ms + en) vs = Inr (Some vs')" by simp
    from Cons.IH[OF r] show ?thesis by (auto simp: defined_names_Cons Pattern)
  next
    case (VarRef t)
    with Cons.prems g m have r: "match_parts eng ps out (ms + en) vs = Inr (Some vs')" by simp
    from Cons.IH[OF r] show ?thesis by (auto simp: defined_names_Cons VarRef)
  qed
qed

lemma match_loop_result:
  assumes "match_loop eng parts out ivs pat n = Some r"
  shows "\<forall>vs'. r = Inr (Some vs') \<longrightarrow>
           (\<exists>vs ms. ivs = Some vs \<and> n \<le> ms \<and> match_parts eng parts out ms vs = Inr (Some vs'))"
  using assms
proof (induction eng parts out ivs pat n r rule: match_loop.raw_induct[rotated, consumes 1])
  case (1 match_loop' eng parts out ivs pat n r)
  show ?case
  proof (cases "re_search eng pat (drop n out)")
    case ReError
    with 1(2) show ?thesis by auto
  next
    case ReNone
    with 1(2) show ?thesis by auto
  next
    case (ReSome m)
    show ?thesis
    proof (cases ivs)
      case None
      with 1(2) ReSome show ?thesis by auto
    next
      case (Some vs)
      show ?thesis
      proof (cases "match_parts eng parts out (n + fst m) vs")
        case (Inl e)
        with 1(2) ReSome Some show ?thesis by auto
      next
        case (Inr res)
        show ?thesis
        proof (cases res)
          case None
          with 1(2) ReSome Some Inr have "match_loop' eng parts out ivs pat (n + fst m + 1) = Some r"
            by simp
          from 1(1)[OF this] have ih: "\<forall>vs'. r = Inr (Some vs') \<longrightarrow>
              (\<exists>vs ms. ivs = Some vs \<and> n + fst m + 1 \<le> ms \<and>
                 match_parts eng parts out ms vs = Inr (Some vs'))" .
          show ?thesis
          proof (intro allI impI)
            fix vs'
            assume "r = Inr (Some vs')"
            with ih obtain vs ms where v: "ivs = Some vs" "n + fst m + 1 \<le> ms"
              "match_parts eng parts out ms vs = Inr (Some vs')" by blast
            from v(2) have "n \<le> ms" by simp
            with v(1,3) show "\<exists>vs ms. ivs = Some vs \<and> n \<le> ms \<and>
                match_parts eng parts out ms vs = Inr (Some vs')" by blast
          qed
        next
          case (Some vs'')
          with 1(2) ReSome \<open>ivs = Some vs\<close> Inr have "r = Inr (Some vs'')" by simp
          moreover have "n \<le> n + fst m" by simp
          ultimately show ?thesis
            using Inr Some \<open>ivs = Some vs\<close> by blast
        qed
      qed
    qed
  qed
qed

lemma CheckLine_match_success:
  assumes "CheckLine_match eng cl out ivs = Some (Inr (Some vs'))"
  shows "\<exists>vs ms. ivs = Some vs \<and> match_parts eng (lineParts cl) out ms vs = Inr (Some vs')"
proof -
  from assms obtain p ps pat where "lineParts cl = p # ps"
    and "match_loop eng (lineParts cl) out ivs pat 0 = Some (Inr (Some vs'))"
    by (auto simp: CheckLine_match_def split: list.splits sum.splits)
  from match_loop_result[OF this(2)] show ?thesis by blast
qed

lemma map_of_append_keep: "map_of vs n = Some v \<Longrightarrow> map_of (vs @ added) n = Some v"
  by (simp add: map_add_Some_iff)

lemma match_loop_raise:
  assumes "re_search eng pat (drop n out) = ReSome m"
    and "match_parts eng parts out (n + fst m) vs = Inl e"
  shows "match_loop eng parts out (Some vs) pat n = Some (Inl e)"
  by (subst match_loop.simps) (simp add: assms)

text \<open>
  C10. When \<open>CheckLine.match\<close> succeeds, the returned variable state is the input state
  with new items appended: the new names are names of \<open>VarDef\<close> elements of the line,
  none of them was bound before, and every binding of the input state is still there with
  its value. The input state itself is a value of the model and is not changed (the source
  works on a copy). A \<open>VarDef\<close> element whose pattern matches while its name is already
  bound raises the redefinition exception, in the loop over the parts and hence in
  \<open>CheckLine.match\<close>.
\<close>

theorem CheckLine_match_only_adds:
  "(CheckLine_match eng cl out (Some vs) = Some (Inr (Some vs')) \<longrightarrow>
      (\<exists>added. vs' = vs @ added \<and> fst ` set added \<subseteq> defined_names (lineParts cl) \<and>
         fst ` set added \<inter> fst ` set vs = {} \<and> distinct (map fst added)) \<and>
      (\<forall>k v. map_of vs k = Some v \<longrightarrow> map_of vs' k = Some v)) \<and>
   (n \<in> fst ` set vs \<and> re_match eng b (drop ms out) = ReSome en \<longrightarrow>
      match_parts eng (VarDef n b # rest) out ms vs = Inl (RedefinedVariable n)) \<and>
   (lineParts cl = VarDef n b # rest \<and> n \<in> fst ` set vs \<and> re_search eng b out = ReSome m \<and>
    re_match eng b (drop (fst m) out) = ReSome en \<longrightarrow>
      CheckLine_match eng cl out (Some vs) = Some (Inl (RedefinedVariable n)))"
proof (intro conjI impI)
  assume a: "CheckLine_match eng cl out (Some vs) = Some (Inr (Some vs'))"
  from CheckLine_match_success[OF a] obtain ms where
    "match_parts eng (lineParts cl) out ms vs = Inr (Some vs')" by auto
  from match_parts_extends[OF this] obtain added where
    e: "vs' = vs @ added" "fst ` set added \<subseteq> defined_names (lineParts cl)"
       "fst ` set added \<inter> fst ` set vs = {}" "distinct (map fst added)"
    by blast
  then show "\<exists>added. vs' = vs @ added \<and> fst ` set added \<subseteq> defined_names (lineParts cl) \<and>
         fst ` set added \<inter> fst ` set vs = {} \<and> distinct (map fst added)" by blast
  show "\<forall>k v. map_of vs k = Some v \<longrightarrow> map_of vs' k = Some v"
    using e(1) by (simp add: map_of_append_keep)
next
  assume "n \<in> fst ` set vs \<and> re_match eng b (drop ms out) = ReSome en"
  then show "match_parts eng (VarDef n b # rest) out ms vs = Inl (RedefinedVariable n)"
    by (simp add: generatePattern_def)
next
  assume a: "lineParts cl = VarDef n b # rest \<and> n \<in> fst ` set vs \<and> re_search eng b out = ReSome m \<and>
    re_match eng b (drop (fst m) out) = ReSome en"
  then have p: "match_parts eng (lineParts cl) out (0 + fst m) vs = Inl (RedefinedVariable n)"
    by (simp add: generatePattern_def)
  from a have s: "re_search eng b (drop 0 out) = ReSome m" by simp
  from match_loop_raise[OF s p] a
  show "CheckLine_match eng cl out (Some vs) = Some (Inl (RedefinedVariable n))"
    by (simp add: CheckLine_match_def generatePattern_def)
qed

definition ex_def_line :: CheckLine where
  "ex_def_line = \<lparr>content = ''[[X:[0-9]+]] foo'', variant = InOrder, lineNo = - 1,
     lineParts = [VarDef ''X'' ''[0-9]+'', Pattern (backslash # ''s+''), Text ''foo'']\<rparr>"

theorem CheckLine_match_only_adds_witness:
  "CheckLine_match py_re ex_def_line ''a 12 foo'' (Some [(''Y'', ''q'')]) =
     Some (Inr (Some [(''Y'', ''q''), (''X'', ''12'')])) \<and>
   map_of [(''Y'', ''q''), (''X'', ''12'')] ''Y'' = Some ''q'' \<and>
   match_parts py_re (VarDef ''X'' ''[0-9]+'' # [Pattern (backslash # ''s+''), Text ''foo'']) ''a 12 foo'' 2
     [(''X'', ''9'')] = Inl (RedefinedVariable ''X'') \<and>
   CheckLine_match py_re ex_def_line ''a 12 foo'' (Some [(''X'', ''9'')]) = Some (Inl (RedefinedVariable ''X''))"
proof -
  have a: "CheckLine_match py_re ex_def_line ''a 12 foo'' (Some [(''Y'', ''q'')]) =
     Some (Inr (Some [(''Y'', ''q''), (''X'', ''12'')]))"
    by code_simp
  have y: "map_of [(''Y'', ''q'')] ''Y'' = Some ''q''" by simp
  have x: "''X'' \<in> fst ` set [(''X'', ''9'')]" by simp
  have b: "re_match py_re ''[0-9]+'' (drop 2 ''a 12 foo'') = ReSome 2"
    by code_simp
  have c1: "lineParts ex_def_line = VarDef ''X'' ''[0-9]+'' # [Pattern (backslash # ''s+''), Text ''foo'']"
    by (simp add: ex_def_line_def)
  have c2: "re_search py_re ''[0-9]+'' ''a 12 foo'' = ReSome (2, 4)"
    by code_simp
  have c3: "re_match py_re ''[0-9]+'' (drop (fst (2::nat, 4::nat)) ''a 12 foo'') = ReSome 2"
    by code_simp
  note t1 = CheckLine_match_only_adds[of py_re ex_def_line "''a 12 foo''" "[(''Y'', ''q'')]"
      "[(''Y'', ''q''), (''X'', ''12'')]"]
  note t2 = CheckLine_match_only_adds[of py_re ex_def_line "''a 12 foo''" "[(''X'', ''9'')]" _
      "''X''" "''[0-9]+''" 2 2 "[Pattern (backslash # ''s+''), Text ''foo'']" "(2, 4)"]
  note e1 = t1[THEN conjunct1, THEN mp, OF a, THEN conjunct2, rule_format, OF y]
  note e2 = t2[THEN conjunct2, THEN conjunct1, THEN mp, OF conjI[OF x b]]
  note e3 = t2[THEN conjunct2, THEN conjunct2, THEN mp, OF conjI[OF c1 conjI[OF x conjI[OF c2 c3]]]]
  show ?thesis
    by (rule conjI[OF a conjI[OF e1 conjI[OF e2 e3]]])
qed

section \<open>The loop over the spans of a group\<close>

declare CheckGroup_match_loop.simps [simp del]


lemma takeWhile_all_append:
  "\<forall>x\<in>set xs. P x \<Longrightarrow> takeWhile P (xs @ ys) = xs @ takeWhile P ys"
  by (induction xs) auto

lemma dropWhile_all_append:
  "\<forall>x\<in>set xs. P x \<Longrightarrow> dropWhile P (xs @ ys) = dropWhile P ys"
  by (induction xs) auto

lemma nextIndependentChecks_InOrder:
  assumes "\<forall>l\<in>set nots. variant l = Not" and "variant cl = InOrder"
  shows "nextIndependentChecks (nots @ cl # rest) = Inr (nots, [cl], rest)"
  using assms
  by (simp add: nextIndependentChecks_def splitByVariant_def takeWhile_all_append dropWhile_all_append)


lemma nextIndependentChecks_trailing:
  assumes "\<forall>l\<in>set nots. variant l = Not"
  shows "nextIndependentChecks nots = Inr (nots, [], [])"
proof -
  have a: "takeWhile (\<lambda>l. variant l = Not) nots = nots" using assms by simp
  have b: "dropWhile (\<lambda>l. variant l = Not) nots = []" using assms by simp
  show ?thesis
    unfolding nextIndependentChecks_def splitByVariant_def Let_def prod.case a b by simp
qed

lemma CheckGroup_match_loop_step:
  assumes "checkLines \<noteq> []" and "nextIndependentChecks checkLines = Inr (nots, indep, rest)"
  shows "CheckGroup_match_loop eng checkLines outs vs =
     (case matchIndependentChecks eng indep outs vs of
        None \<Rightarrow> None
      | Some (Inl e) \<Rightarrow> Some (Inl e)
      | Some (Inr (notOutput, outs', vs')) \<Rightarrow>
          (case matchNotLines eng nots notOutput (Some vs) of
             None \<Rightarrow> None
           | Some (Inl e) \<Rightarrow> Some (Inl e)
           | Some (Inr u) \<Rightarrow> CheckGroup_match_loop eng rest outs' vs'))"
  by (subst CheckGroup_match_loop.simps) (simp add: assms)

lemma matchIndependentChecks_single:
  "matchIndependentChecks eng [cl] outs vs =
     (case findFirstMatch eng cl outs [] (Some vs) of
        None \<Rightarrow> None
      | Some (Inl e) \<Rightarrow> Some (Inl e)
      | Some (Inr None) \<Rightarrow> Some (Inl (CouldNotMatchLine cl))
      | Some (Inr (Some (k, vs'))) \<Rightarrow> Some (Inr (take (k - 1) outs, drop k outs, vs')))"
  by (simp add: matchIndependentChecks_def split: option.splits sum.splits)

lemma CheckGroup_match_loop_InOrder:
  assumes "variant cl = InOrder"
  shows "CheckGroup_match_loop eng (cl # rest) outs vs =
     (case findFirstMatch eng cl outs [] (Some vs) of
        None \<Rightarrow> None
      | Some (Inl e) \<Rightarrow> Some (Inl e)
      | Some (Inr None) \<Rightarrow> Some (Inl (CouldNotMatchLine cl))
      | Some (Inr (Some (k, vs'))) \<Rightarrow> CheckGroup_match_loop eng rest (drop k outs) vs')"
proof -
  have n: "nextIndependentChecks (cl # rest) = Inr ([], [cl], rest)"
    using nextIndependentChecks_InOrder[of "[]" cl rest] assms by simp
  show ?thesis
    by (simp add: CheckGroup_match_loop_step[OF _ n] matchIndependentChecks_single
        split: option.splits sum.splits)
qed

lemma findFirstMatch_from_none:
  assumes "\<forall>w\<in>set ws. CheckLine_match eng cl w vs = Some (Inr None)"
  shows "findFirstMatch_from eng cl ws filt vs n = Some (Inr None)"
  using assms by (induction ws arbitrary: n) auto

lemma findFirstMatch_from_char:
  assumes "findFirstMatch_from eng cl ws filt vs n = Some (Inr (Some (k, vs')))"
  shows "n < k \<and> k \<le> n + length ws \<and> k \<notin> set filt \<and>
         CheckLine_match eng cl (ws ! (k - n - 1)) vs = Some (Inr (Some vs')) \<and>
         (\<forall>j. n < j \<and> j < k \<and> j \<notin> set filt \<longrightarrow>
              CheckLine_match eng cl (ws ! (j - n - 1)) vs = Some (Inr None))"
  using assms
proof (induction ws arbitrary: n)
  case Nil
  then show ?case by simp
next
  case (Cons w ws)
  show ?case
  proof (cases "n + 1 \<in> set filt")
    case True
    with Cons.prems have r: "findFirstMatch_from eng cl ws filt vs (n + 1) = Some (Inr (Some (k, vs')))"
      by simp
    note ih = Cons.IH[OF r]
    have k: "n + 1 < k" using ih by simp
    have a: "(w # ws) ! (k - n - 1) = ws ! (k - (n + 1) - 1)" using k by (simp add: nth_Cons')
    have b: "\<forall>j. n < j \<and> j < k \<and> j \<notin> set filt \<longrightarrow>
        CheckLine_match eng cl ((w # ws) ! (j - n - 1)) vs = Some (Inr None)"
    proof (intro allI impI)
      fix j assume j: "n < j \<and> j < k \<and> j \<notin> set filt"
      with True have "n + 1 < j" by (cases "j = n + 1") auto
      then have "(w # ws) ! (j - n - 1) = ws ! (j - (n + 1) - 1)" by (simp add: nth_Cons')
      with ih j \<open>n + 1 < j\<close> show "CheckLine_match eng cl ((w # ws) ! (j - n - 1)) vs = Some (Inr None)"
        by simp
    qed
    from ih a b k show ?thesis by simp
  next
    case False
    note nf = this
    show ?thesis
    proof (cases "CheckLine_match eng cl w vs")
      case None
      with Cons.prems nf show ?thesis by simp
    next
      case (Some res)
      show ?thesis
      proof (cases res)
        case (Inl e)
        with Cons.prems nf Some show ?thesis by simp
      next
        case (Inr mres)
        show ?thesis
        proof (cases mres)
          case (Some nvs)
          with Cons.prems nf \<open>CheckLine_match eng cl w vs = Some res\<close> Inr
          have "k = n + 1" "vs' = nvs" by simp_all
          with nf \<open>CheckLine_match eng cl w vs = Some res\<close> Inr Some show ?thesis by simp
        next
          case None
          with Cons.prems nf \<open>CheckLine_match eng cl w vs = Some res\<close> Inr
          have r: "findFirstMatch_from eng cl ws filt vs (n + 1) = Some (Inr (Some (k, vs')))"
            by simp
          note ih = Cons.IH[OF r]
          have k: "n + 1 < k" using ih by simp
          have a: "(w # ws) ! (k - n - 1) = ws ! (k - (n + 1) - 1)" using k by (simp add: nth_Cons')
          have b: "\<forall>j. n < j \<and> j < k \<and> j \<notin> set filt \<longrightarrow>
              CheckLine_match eng cl ((w # ws) ! (j - n - 1)) vs = Some (Inr None)"
          proof (intro allI impI)
            fix j assume j: "n < j \<and> j < k \<and> j \<notin> set filt"
            show "CheckLine_match eng cl ((w # ws) ! (j - n - 1)) vs = Some (Inr None)"
            proof (cases "j = n + 1")
              case True
              with \<open>CheckLine_match eng cl w vs = Some res\<close> Inr None show ?thesis by simp
            next
              case False
              with j have "n + 1 < j" by simp
              then have "(w # ws) ! (j - n - 1) = ws ! (j - (n + 1) - 1)" by (simp add: nth_Cons')
              with ih j \<open>n + 1 < j\<close> show ?thesis by simp
            qed
          qed
          from ih a b k show ?thesis by simp
        qed
      qed
    qed
  qed
qed

text \<open>
  C3. An \<open>InOrder\<close> line is an independent span of its own, whatever follows it. It is
  matched to the first line of the current output window that it matches, and the rest of
  the group sees only the output after that line. With two \<open>InOrder\<close> lines \<open>l1\<close>,
  \<open>l2\<close>: when \<open>l1\<close> first matches output line \<open>i\<close> and no line after \<open>i\<close> matches
  \<open>l2\<close> (the lines matching \<open>l2\<close> all come before), the group fails on \<open>l2\<close>; when
  no line matches \<open>l1\<close>, it fails on \<open>l1\<close>.
\<close>

theorem inorder_strict:
  "((\<forall>l\<in>set nots. variant l = Not) \<and> variant cl = InOrder \<longrightarrow>
      nextIndependentChecks (nots @ cl # rest) = Inr (nots, [cl], rest)) \<and>
   (variant cl = InOrder \<and> findFirstMatch eng cl outs [] (Some vs) = Some (Inr (Some (k, vs'))) \<longrightarrow>
      1 \<le> k \<and> k \<le> length outs \<and>
      CheckLine_match eng cl (outs ! (k - 1)) (Some vs) = Some (Inr (Some vs')) \<and>
      CheckGroup_match_loop eng (cl # rest) outs vs = CheckGroup_match_loop eng rest (drop k outs) vs') \<and>
   (variant l1 = InOrder \<and> variant l2 = InOrder \<and>
    findFirstMatch eng l1 outs [] (Some []) = Some (Inr (Some (i, vs1))) \<and>
    (\<forall>w\<in>set (drop i outs). CheckLine_match eng l2 w (Some vs1) = Some (Inr None)) \<longrightarrow>
      CheckGroup_match eng \<lparr>name = nm, lines = [l1, l2]\<rparr> \<lparr>oname = onm, body = outs\<rparr> =
        Some (Inl (CouldNotMatchLine l2))) \<and>
   (variant l1 = InOrder \<and> (\<forall>w\<in>set outs. CheckLine_match eng l1 w (Some []) = Some (Inr None)) \<longrightarrow>
      CheckGroup_match eng \<lparr>name = nm, lines = l1 # ls\<rparr> \<lparr>oname = onm, body = outs\<rparr> =
        Some (Inl (CouldNotMatchLine l1)))"
proof (intro conjI impI)
  assume "(\<forall>l\<in>set nots. variant l = Not) \<and> variant cl = InOrder"
  then show "nextIndependentChecks (nots @ cl # rest) = Inr (nots, [cl], rest)"
    by (simp add: nextIndependentChecks_InOrder)
next
  assume a: "variant cl = InOrder \<and> findFirstMatch eng cl outs [] (Some vs) = Some (Inr (Some (k, vs')))"
  then have f: "findFirstMatch_from eng cl outs [] (Some vs) 0 = Some (Inr (Some (k, vs')))"
    by (simp add: findFirstMatch_def)
  note c = findFirstMatch_from_char[OF f]
  from c show "1 \<le> k" by simp
  from c show "k \<le> length outs" by simp
  from c show "CheckLine_match eng cl (outs ! (k - 1)) (Some vs) = Some (Inr (Some vs'))" by simp
  from a show "CheckGroup_match_loop eng (cl # rest) outs vs = CheckGroup_match_loop eng rest (drop k outs) vs'"
    by (simp add: CheckGroup_match_loop_InOrder)
next
  assume a: "variant l1 = InOrder \<and> variant l2 = InOrder \<and>
    findFirstMatch eng l1 outs [] (Some []) = Some (Inr (Some (i, vs1))) \<and>
    (\<forall>w\<in>set (drop i outs). CheckLine_match eng l2 w (Some vs1) = Some (Inr None))"
  then have n: "findFirstMatch eng l2 (drop i outs) [] (Some vs1) = Some (Inr None)"
    by (simp add: findFirstMatch_def findFirstMatch_from_none)
  from a have "CheckGroup_match_loop eng [l1, l2] outs [] = CheckGroup_match_loop eng [l2] (drop i outs) vs1"
    by (simp add: CheckGroup_match_loop_InOrder)
  also from a n have "\<dots> = Some (Inl (CouldNotMatchLine l2))"
    by (simp add: CheckGroup_match_loop_InOrder)
  finally show "CheckGroup_match eng \<lparr>name = nm, lines = [l1, l2]\<rparr> \<lparr>oname = onm, body = outs\<rparr> =
        Some (Inl (CouldNotMatchLine l2))"
    by (simp add: CheckGroup_match_def)
next
  assume a: "variant l1 = InOrder \<and> (\<forall>w\<in>set outs. CheckLine_match eng l1 w (Some []) = Some (Inr None))"
  then have "findFirstMatch eng l1 outs [] (Some []) = Some (Inr None)"
    by (simp add: findFirstMatch_def findFirstMatch_from_none)
  with a show "CheckGroup_match eng \<lparr>name = nm, lines = l1 # ls\<rparr> \<lparr>oname = onm, body = outs\<rparr> =
        Some (Inl (CouldNotMatchLine l1))"
    by (simp add: CheckGroup_match_def CheckGroup_match_loop_InOrder)
qed

definition ex_text_line :: "string \<Rightarrow> LineVariant \<Rightarrow> CheckLine" where
  "ex_text_line t var = \<lparr>content = t, variant = var, lineNo = - 1, lineParts = [Text t]\<rparr>"

theorem inorder_strict_witness:
  "nextIndependentChecks ([ex_text_line ''N'' Not] @ ex_text_line ''A'' InOrder # [ex_text_line ''B'' InOrder]) =
     Inr ([ex_text_line ''N'' Not], [ex_text_line ''A'' InOrder], [ex_text_line ''B'' InOrder]) \<and>
   findFirstMatch py_re (ex_text_line ''A'' InOrder) [''B'', ''A'', ''C''] [] (Some []) = Some (Inr (Some (2, []))) \<and>
   CheckGroup_match_loop py_re (ex_text_line ''A'' InOrder # [ex_text_line ''B'' InOrder]) [''B'', ''A'', ''C''] [] =
     CheckGroup_match_loop py_re [ex_text_line ''B'' InOrder] (drop 2 [''B'', ''A'', ''C'']) [] \<and>
   CheckGroup_match py_re \<lparr>name = ''G'', lines = [ex_text_line ''A'' InOrder, ex_text_line ''B'' InOrder]\<rparr>
     \<lparr>oname = ''G'', body = [''B'', ''A'', ''C'']\<rparr> = Some (Inl (CouldNotMatchLine (ex_text_line ''B'' InOrder)))"
proof -
  have n: "\<forall>l\<in>set [ex_text_line ''N'' Not]. variant l = Not"
    by (simp add: ex_text_line_def)
  have va: "variant (ex_text_line ''A'' InOrder) = InOrder"
    by (simp add: ex_text_line_def)
  have vb: "variant (ex_text_line ''B'' InOrder) = InOrder"
    by (simp add: ex_text_line_def)
  have f: "findFirstMatch py_re (ex_text_line ''A'' InOrder) [''B'', ''A'', ''C''] [] (Some []) = Some (Inr (Some (2, [])))"
    by code_simp
  have w: "\<forall>w\<in>set (drop 2 [''B'', ''A'', ''C'']). CheckLine_match py_re (ex_text_line ''B'' InOrder) w (Some []) = Some (Inr None)"
    by code_simp
  note t = inorder_strict[of "[ex_text_line ''N'' Not]" "ex_text_line ''A'' InOrder" "[ex_text_line ''B'' InOrder]"
      py_re "[''B'', ''A'', ''C'']" "[]" 2 "[]" "ex_text_line ''A'' InOrder" "ex_text_line ''B'' InOrder" 2 "[]"
      "''G''" "''G''"]
  note e1 = t[THEN conjunct1, THEN mp, OF conjI[OF n va]]
  note e2 = t[THEN conjunct2, THEN conjunct1, THEN mp, OF conjI[OF va f], THEN conjunct2, THEN conjunct2, THEN conjunct2]
  note e3 = t[THEN conjunct2, THEN conjunct2, THEN conjunct1, THEN mp,
      OF conjI[OF va conjI[OF vb conjI[OF f w]]]]
  show ?thesis
    by (rule conjI[OF e1 conjI[OF f conjI[OF e2 e3]]])
qed

section \<open>Spans of unordered lines\<close>













section \<open>Variables\<close>

text \<open>
  What the checker relies on for \<open>re.escape\<close>: matching the escaped form of \<open>v\<close> at
  the start of \<open>s\<close> succeeds exactly when \<open>s\<close> starts with \<open>v\<close>, and consumes \<open>v\<close>.
\<close>

definition escape_literal :: "regex_engine \<Rightarrow> bool" where
  "escape_literal eng =
     (\<forall>v s. re_match eng (re_escape eng v) s =
              (if startswith s v then ReSome (length v) else ReNone))"

lemma isalnum_plain:
  assumes "isalnum c \<or> c = CHR ''_''"
  shows "c \<noteq> backslash \<and> c \<noteq> CHR ''.'' \<and> c \<noteq> CHR ''['' \<and> c \<noteq> CHR ''('' \<and> \<not> is_special c \<and>
         c \<noteq> CHR ''+'' \<and> c \<noteq> CHR ''*'' \<and> c \<noteq> CHR ''?''"
  using assms by (auto simp: isalnum_def isalpha_def isdigit_def is_special_def)

lemma parse_quant_py_escape: "parse_quant (py_escape v) = (QOne, py_escape v)"
proof (cases v)
  case Nil
  then show ?thesis by (simp add: py_escape_def)
next
  case (Cons c cs)
  show ?thesis
  proof (cases "isalnum c \<or> c = CHR ''_''")
    case True
    from isalnum_plain[OF True] True Cons show ?thesis by (simp add: py_escape_def)
  next
    case False
    with Cons show ?thesis by (simp add: py_escape_def)
  qed
qed

lemma py_escape_Cons:
  "py_escape (c # v) = (if isalnum c \<or> c = CHR ''_'' then c # py_escape v else backslash # c # py_escape v)"
  by (simp add: py_escape_def)

lemma escape_class_other: "\<not> isalnum c \<Longrightarrow> escape_class c = Some (CChar c)"
  by (auto simp: escape_class_def isalnum_def isalpha_def isdigit_def)

lemma parse_rx_py_escape: "parse_rx (py_escape v) = Some (map (\<lambda>c. Atom (CChar c) QOne) v)"
proof (induction v)
  case Nil
  then show ?case by (simp add: py_escape_def)
next
  case (Cons c v)
  show ?case
  proof (cases "isalnum c \<or> c = CHR ''_''")
    case True
    from isalnum_plain[OF True] True Cons.IH show ?thesis
      by (simp add: py_escape_Cons parse_quant_py_escape)
  next
    case False
    with Cons.IH show ?thesis
      by (simp add: py_escape_Cons parse_quant_py_escape escape_class_other)
  qed
qed

lemma rx_match_literal:
  "rx_match (map (\<lambda>c. Atom (CChar c) QOne) v) s = (if startswith s v then Some (length v) else None)"
proof (induction v arbitrary: s)
  case Nil
  then show ?case by (simp add: startswith_def)
next
  case (Cons c v)
  show ?case
  proof (cases s)
    case Nil
    then show ?thesis by (simp add: startswith_def)
  next
    case (Cons x xs)
    with Cons.IH[of xs] show ?thesis by (auto simp: startswith_def)
  qed
qed

lemma py_re_escape_literal: "escape_literal py_re"
  by (simp add: escape_literal_def py_re_def py_match_def parse_rx_py_escape rx_match_literal)

lemma CheckLine_match_keeps:
  assumes "CheckLine_match eng cl out (Some vs) = Some (Inr (Some vs'))" and "map_of vs n = Some v"
  shows "map_of vs' n = Some v"
proof -
  from CheckLine_match_success[OF assms(1)] obtain ms where
    "match_parts eng (lineParts cl) out ms vs = Inr (Some vs')" by auto
  from match_parts_extends[OF this] obtain added where "vs' = vs @ added" by blast
  with assms(2) show ?thesis by (simp add: map_of_append_keep)
qed

lemma findFirstMatch_keeps:
  assumes "findFirstMatch eng cl outs matched (Some vs) = Some (Inr (Some (k, vs')))"
    and "map_of vs n = Some v"
  shows "map_of vs' n = Some v"
proof -
  from assms(1) have "findFirstMatch_from eng cl outs matched (Some vs) 0 = Some (Inr (Some (k, vs')))"
    by (simp add: findFirstMatch_def)
  from findFirstMatch_from_char[OF this]
  have "CheckLine_match eng cl (outs ! (k - 0 - 1)) (Some vs) = Some (Inr (Some vs'))" by simp
  from CheckLine_match_keeps[OF this assms(2)] show ?thesis .
qed

lemma matchChecks_keeps:
  assumes "matchChecks eng cls outs matched vs = Some (Inr (ms, vs'))" and "map_of vs n = Some v"
  shows "map_of vs' n = Some v"
  using assms
proof (induction cls arbitrary: matched vs)
  case Nil
  then show ?case by simp
next
  case (Cons cl cls)
  from Cons.prems(1) obtain k v1 where
    f: "findFirstMatch eng cl outs matched (Some vs) = Some (Inr (Some (k, v1)))" and
    r: "matchChecks eng cls outs (matched @ [k]) v1 = Some (Inr (ms, vs'))"
    by (auto split: option.splits sum.splits)
  from findFirstMatch_keeps[OF f Cons.prems(2)] have "map_of v1 n = Some v" .
  from Cons.IH[OF r this] show ?case .
qed

lemma match_parts_VarRef:
  assumes "escape_literal eng" and "map_of vs n = Some v"
  shows "match_parts eng (VarRef n # rest) out ms vs =
     (if startswith (drop ms out) v then match_parts eng rest out (ms + length v) vs else Inr None)"
  using assms by (simp add: generatePattern_def escape_literal_def)

lemma match_parts_VarDef:
  assumes "n \<notin> fst ` set vs" and "re_match eng b (drop ms out) = ReSome en"
  shows "match_parts eng (VarDef n b # rest) out ms vs =
     match_parts eng rest out (ms + en) (vs @ [(n, take en (drop ms out))])"
  using assms by (simp add: generatePattern_def)

lemma map_of_fresh_append: "n \<notin> fst ` set vs \<Longrightarrow> map_of (vs @ [(n, v)]) n = Some v"
  by (induction vs) auto

text \<open>
  Variables in the lines of independent spans. A \<open>VarDef\<close> element that matches binds
  its name to the part of the output line that its pattern consumed, and the elements
  after it are matched under the new state. A \<open>VarRef\<close> element of a bound name matches
  exactly the bound string, as a literal, whatever the defining pattern would accept. A
  binding stays in the state through the later \<open>InOrder\<close> and \<open>DAG\<close> lines of the
  group: the state of each line match is that of the match before, and the state after a
  span goes to the spans after it. A run of a group starts with the empty state.
\<close>

theorem variable_roundtrip:
  assumes "escape_literal eng"
  shows "(n \<notin> fst ` set vs \<and> re_match eng b (drop ms out) = ReSome en \<longrightarrow>
            match_parts eng (VarDef n b # rest) out ms vs =
              match_parts eng rest out (ms + en) (vs @ [(n, take en (drop ms out))])) \<and>
         (map_of vs n = Some v \<longrightarrow>
            generatePattern eng (VarRef n) (Some vs) = Inr (re_escape eng v) \<and>
            match_parts eng (VarRef n # rest) out ms vs =
              (if startswith (drop ms out) v then match_parts eng rest out (ms + length v) vs
               else Inr None)) \<and>
         (n \<notin> fst ` set vs \<and> re_match eng b (drop ms out) = ReSome en \<longrightarrow>
            match_parts eng [VarDef n b, VarRef n] out ms vs =
              (if startswith (drop (ms + en) out) (take en (drop ms out))
               then Inr (Some (vs @ [(n, take en (drop ms out))])) else Inr None)) \<and>
         (map_of vs n = Some v \<and>
          findFirstMatch eng cl outs matched (Some vs) = Some (Inr (Some (k, vs1))) \<longrightarrow>
            map_of vs1 n = Some v \<and>
            matchChecks eng (cl # cls) outs matched vs = matchChecks eng cls outs (matched @ [k]) vs1) \<and>
         (map_of vs n = Some v \<and> matchChecks eng cls outs matched vs = Some (Inr (ks, vs2)) \<longrightarrow>
            map_of vs2 n = Some v) \<and>
         (variant cl = InOrder \<and>
          findFirstMatch eng cl outs [] (Some vs) = Some (Inr (Some (k, vs1))) \<longrightarrow>
            CheckGroup_match_loop eng (cl # later) outs vs =
              CheckGroup_match_loop eng later (drop k outs) vs1) \<and>
         CheckGroup_match eng g og = CheckGroup_match_loop eng (lines g) (body og) []"
proof (intro conjI impI)
  assume a: "n \<notin> fst ` set vs \<and> re_match eng b (drop ms out) = ReSome en"
  show "match_parts eng (VarDef n b # rest) out ms vs =
      match_parts eng rest out (ms + en) (vs @ [(n, take en (drop ms out))])"
    by (rule match_parts_VarDef[OF a[THEN conjunct1] a[THEN conjunct2]])
next
  assume "map_of vs n = Some v"
  then show "generatePattern eng (VarRef n) (Some vs) = Inr (re_escape eng v)"
    by (simp add: generatePattern_def)
next
  assume "map_of vs n = Some v"
  then show "match_parts eng (VarRef n # rest) out ms vs =
      (if startswith (drop ms out) v then match_parts eng rest out (ms + length v) vs else Inr None)"
    by (rule match_parts_VarRef[OF assms])
next
  assume a: "n \<notin> fst ` set vs \<and> re_match eng b (drop ms out) = ReSome en"
  have m: "map_of (vs @ [(n, take en (drop ms out))]) n = Some (take en (drop ms out))"
    by (rule map_of_fresh_append[OF a[THEN conjunct1]])
  have "match_parts eng [VarDef n b, VarRef n] out ms vs =
      match_parts eng [VarRef n] out (ms + en) (vs @ [(n, take en (drop ms out))])"
    by (rule match_parts_VarDef[OF a[THEN conjunct1] a[THEN conjunct2]])
  also have "\<dots> = (if startswith (drop (ms + en) out) (take en (drop ms out))
               then Inr (Some (vs @ [(n, take en (drop ms out))])) else Inr None)"
    unfolding match_parts_VarRef[OF assms m] by simp
  finally show "match_parts eng [VarDef n b, VarRef n] out ms vs =
      (if startswith (drop (ms + en) out) (take en (drop ms out))
       then Inr (Some (vs @ [(n, take en (drop ms out))])) else Inr None)" .
next
  assume a: "map_of vs n = Some v \<and>
    findFirstMatch eng cl outs matched (Some vs) = Some (Inr (Some (k, vs1)))"
  then show "map_of vs1 n = Some v" using findFirstMatch_keeps by blast
  from a show "matchChecks eng (cl # cls) outs matched vs = matchChecks eng cls outs (matched @ [k]) vs1"
    by simp
next
  assume "map_of vs n = Some v \<and> matchChecks eng cls outs matched vs = Some (Inr (ks, vs2))"
  then show "map_of vs2 n = Some v" using matchChecks_keeps by blast
next
  assume "variant cl = InOrder \<and>
    findFirstMatch eng cl outs [] (Some vs) = Some (Inr (Some (k, vs1)))"
  then show "CheckGroup_match_loop eng (cl # later) outs vs = CheckGroup_match_loop eng later (drop k outs) vs1"
    by (simp add: CheckGroup_match_loop_InOrder)
next
  show "CheckGroup_match eng g og = CheckGroup_match_loop eng (lines g) (body og) []"
    by (simp add: CheckGroup_match_def)
qed

definition ex_ref_line :: CheckLine where
  "ex_ref_line = \<lparr>content = ''use [[X]]'', variant = InOrder, lineNo = - 1,
     lineParts = [Text ''use'', Pattern (backslash # ''s+''), VarRef ''X'']\<rparr>"

definition ex_num_line :: CheckLine where
  "ex_num_line = \<lparr>content = ''[[X:[0-9]+]]'', variant = InOrder, lineNo = - 1,
     lineParts = [VarDef ''X'' ''[0-9]+'']\<rparr>"

theorem variable_roundtrip_witness:
  "escape_literal py_re \<and>
   match_parts py_re [VarDef ''X'' ''[0-9]'', VarRef ''X''] ''113'' 0 [] =
     (if startswith (drop (0 + 1) ''113'') (take 1 (drop 0 ''113''))
      then Inr (Some ([] @ [(''X'', take 1 (drop 0 ''113''))])) else Inr None) \<and>
   match_parts py_re [VarDef ''X'' ''[0-9]'', VarRef ''X''] ''113'' 0 [] = Inr (Some [(''X'', ''1'')]) \<and>
   match_parts py_re [VarDef ''X'' ''[0-9]'', VarRef ''X''] ''123'' 0 [] = Inr None \<and>
   findFirstMatch py_re ex_num_line [''12'', ''use 34'', ''use 12''] [] (Some []) =
     Some (Inr (Some (1, [(''X'', ''12'')]))) \<and>
   findFirstMatch py_re ex_ref_line (drop 1 [''12'', ''use 34'', ''use 12'']) [] (Some [(''X'', ''12'')]) =
     Some (Inr (Some (2, [(''X'', ''12'')]))) \<and>
   CheckGroup_match_loop py_re (ex_num_line # [ex_ref_line]) [''12'', ''use 34'', ''use 12''] [] =
     CheckGroup_match_loop py_re [ex_ref_line] (drop 1 [''12'', ''use 34'', ''use 12'']) [(''X'', ''12'')] \<and>
   CheckGroup_match py_re \<lparr>name = ''G'', lines = [ex_num_line, ex_ref_line]\<rparr>
     \<lparr>oname = ''G'', body = [''12'', ''use 34'', ''use 12'']\<rparr> = Some (Inr ()) \<and>
   CheckGroup_match py_re \<lparr>name = ''G'', lines = [ex_num_line, ex_ref_line]\<rparr>
     \<lparr>oname = ''G'', body = [''12'', ''use 34'']\<rparr> = Some (Inl (CouldNotMatchLine ex_ref_line))"
proof -
  note h = py_re_escape_literal
  have x: "''X'' \<notin> fst ` set ([] :: varstate)" by simp
  have m: "re_match py_re ''[0-9]'' (drop 0 ''113'') = ReSome 1" by code_simp
  have r1: "match_parts py_re [VarDef ''X'' ''[0-9]'', VarRef ''X''] ''113'' 0 [] = Inr (Some [(''X'', ''1'')])"
    by code_simp
  have r2: "match_parts py_re [VarDef ''X'' ''[0-9]'', VarRef ''X''] ''123'' 0 [] = Inr None"
    by code_simp
  have v: "variant ex_num_line = InOrder" by (simp add: ex_num_line_def)
  have f1: "findFirstMatch py_re ex_num_line [''12'', ''use 34'', ''use 12''] [] (Some []) =
     Some (Inr (Some (1, [(''X'', ''12'')])))"
    by code_simp
  have f2: "findFirstMatch py_re ex_ref_line (drop 1 [''12'', ''use 34'', ''use 12'']) [] (Some [(''X'', ''12'')]) =
     Some (Inr (Some (2, [(''X'', ''12'')])))"
    by code_simp
  have g1: "CheckGroup_match py_re \<lparr>name = ''G'', lines = [ex_num_line, ex_ref_line]\<rparr>
     \<lparr>oname = ''G'', body = [''12'', ''use 34'', ''use 12'']\<rparr> = Some (Inr ())"
    by code_simp
  have g2: "CheckGroup_match py_re \<lparr>name = ''G'', lines = [ex_num_line, ex_ref_line]\<rparr>
     \<lparr>oname = ''G'', body = [''12'', ''use 34'']\<rparr> = Some (Inl (CouldNotMatchLine ex_ref_line))"
    by code_simp
  note t1 = variable_roundtrip[OF h, where n = "''X''" and vs = "[]" and b = "''[0-9]''" and ms = 0
      and out = "''113''" and en = 1]
  note t2 = variable_roundtrip[OF h, where vs = "[]" and cl = ex_num_line
      and outs = "[''12'', ''use 34'', ''use 12'']" and k = 1 and ?vs1.0 = "[(''X'', ''12'')]"
      and later = "[ex_ref_line]"]
  note e1 = t1[THEN conjunct2, THEN conjunct2, THEN conjunct1, THEN mp, OF conjI[OF x m]]
  note e2 = t2[THEN conjunct2, THEN conjunct2, THEN conjunct2, THEN conjunct2, THEN conjunct2, THEN conjunct1,
      THEN mp, OF conjI[OF v f1]]
  show ?thesis
    by (rule conjI[OF h conjI[OF e1 conjI[OF r1 conjI[OF r2 conjI[OF f1 conjI[OF f2 conjI[OF e2 conjI[OF g1 g2]]]]]]]])
qed

definition ex_ref_not :: CheckLine where
  "ex_ref_not = \<lparr>content = ''[[X]]'', variant = Not, lineNo = - 1, lineParts = [VarRef ''X'']\<rparr>"

text \<open>
  C4. A binding is not visible to every later line of the group run. A \<open>Not\<close> line sees
  the bindings only when it is the first line of its negative span: after a \<open>Not\<close> line
  that matched nothing, \<open>__matchNotLines\<close> holds \<open>None\<close> in place of the variable
  state, and a reference in the next \<open>Not\<close> line raises \<open>TypeError\<close> instead of being
  matched against the bound string. Here \<open>X\<close> is bound to \<open>12\<close> by the first line;
  no \<open>Not\<close> line matches the output line \<open>zzz\<close>, and the group with the two
  \<open>Not\<close> lines fails with \<open>TypeError\<close>. With the reference as the only \<open>Not\<close>
  line the binding is seen: the group passes on \<open>zzz\<close> and fails on a line that
  contains \<open>12\<close>.
\<close>

theorem not_line_reference_raises:
  "CheckLine_init py_re ''[[X:[0-9]+]]'' InOrder (- 1) = Inr ex_num_line \<and>
   CheckLine_init py_re ''[[X]]'' Not (- 1) = Inr ex_ref_not \<and>
   CheckLine_match py_re ex_num_line ''12'' (Some []) = Some (Inr (Some [(''X'', ''12'')])) \<and>
   CheckLine_match py_re (ex_text_line ''foo'' Not) ''zzz'' (Some [(''X'', ''12'')]) = Some (Inr None) \<and>
   CheckLine_match py_re ex_ref_not ''zzz'' (Some [(''X'', ''12'')]) = Some (Inr None) \<and>
   CheckLine_match py_re ex_ref_not ''zzz'' None = Some (Inl TypeError) \<and>
   CheckGroup_match py_re
     \<lparr>name = ''G'', lines = [ex_num_line, ex_text_line ''foo'' Not, ex_ref_not]\<rparr>
     \<lparr>oname = ''G'', body = [''12'', ''zzz'']\<rparr> = Some (Inl TypeError) \<and>
   CheckGroup_match py_re
     \<lparr>name = ''G'', lines = [ex_num_line, ex_ref_not]\<rparr>
     \<lparr>oname = ''G'', body = [''12'', ''zzz'']\<rparr> = Some (Inr ()) \<and>
   CheckGroup_match py_re
     \<lparr>name = ''G'', lines = [ex_num_line, ex_ref_not]\<rparr>
     \<lparr>oname = ''G'', body = [''12'', ''a 12'']\<rparr> = Some (Inl (NotLineMatches ex_ref_not))"
proof -
  have a: "CheckLine_init py_re ''[[X:[0-9]+]]'' InOrder (- 1) = Inr ex_num_line"
    by code_simp
  have b: "CheckLine_init py_re ''[[X]]'' Not (- 1) = Inr ex_ref_not"
    by code_simp
  have c: "CheckLine_match py_re ex_num_line ''12'' (Some []) = Some (Inr (Some [(''X'', ''12'')]))"
    by code_simp
  have d: "CheckLine_match py_re (ex_text_line ''foo'' Not) ''zzz'' (Some [(''X'', ''12'')]) = Some (Inr None)"
    by code_simp
  have e: "CheckLine_match py_re ex_ref_not ''zzz'' (Some [(''X'', ''12'')]) = Some (Inr None)"
    by code_simp
  have f: "CheckLine_match py_re ex_ref_not ''zzz'' None = Some (Inl TypeError)"
    by code_simp
  have g: "CheckGroup_match py_re
     \<lparr>name = ''G'', lines = [ex_num_line, ex_text_line ''foo'' Not, ex_ref_not]\<rparr>
     \<lparr>oname = ''G'', body = [''12'', ''zzz'']\<rparr> = Some (Inl TypeError)"
    by code_simp
  have h: "CheckGroup_match py_re
     \<lparr>name = ''G'', lines = [ex_num_line, ex_ref_not]\<rparr>
     \<lparr>oname = ''G'', body = [''12'', ''zzz'']\<rparr> = Some (Inr ())"
    by code_simp
  have i: "CheckGroup_match py_re
     \<lparr>name = ''G'', lines = [ex_num_line, ex_ref_not]\<rparr>
     \<lparr>oname = ''G'', body = [''12'', ''a 12'']\<rparr> = Some (Inl (NotLineMatches ex_ref_not))"
    by code_simp
  show ?thesis
    by (rule conjI[OF a conjI[OF b conjI[OF c conjI[OF d conjI[OF e conjI[OF f conjI[OF g conjI[OF h i]]]]]]]])
qed

section \<open>Negative spans\<close>

definition ex_bar_baz :: CheckLine where
  "ex_bar_baz = \<lparr>content = ''bar baz'', variant = Not, lineNo = - 1,
     lineParts = [Text ''bar'', Pattern (backslash # ''s+''), Text ''baz'']\<rparr>"

text \<open>
  C1. The window of a negative span between two independent spans is the output between
  their matches, and a single \<open>Not\<close> line is checked against it as the claim says (last
  conjunct: \<open>bar baz\<close> occurs only after the match of \<open>L2\<close>, and the group passes). The
  second \<open>Not\<close> line of a span is matched with \<open>None\<close> in place of the variable state:
  here neither \<open>foo\<close> nor \<open>bar baz\<close> matches the window line \<open>bar qux\<close>, yet the group
  fails with \<open>TypeError\<close>, because the first element of \<open>bar baz\<close> is found in that line.
\<close>

theorem negative_window_second_line_raises:
  "CheckLine_init py_re ''foo'' Not (- 1) = Inr (ex_text_line ''foo'' Not) \<and>
   CheckLine_init py_re ''bar baz'' Not (- 1) = Inr ex_bar_baz \<and>
   CheckLine_match py_re (ex_text_line ''foo'' Not) ''bar qux'' (Some []) = Some (Inr None) \<and>
   CheckLine_match py_re ex_bar_baz ''bar qux'' (Some []) = Some (Inr None) \<and>
   CheckLine_match py_re ex_bar_baz ''bar qux'' None = Some (Inl TypeError) \<and>
   CheckGroup_match py_re
     \<lparr>name = ''G'', lines = [ex_text_line ''L1'' InOrder, ex_text_line ''foo'' Not, ex_bar_baz,
                             ex_text_line ''L2'' InOrder]\<rparr>
     \<lparr>oname = ''G'', body = [''L1'', ''bar qux'', ''L2'', ''bar baz'']\<rparr> = Some (Inl TypeError) \<and>
   CheckGroup_match py_re
     \<lparr>name = ''G'', lines = [ex_text_line ''L1'' InOrder, ex_bar_baz, ex_text_line ''L2'' InOrder]\<rparr>
     \<lparr>oname = ''G'', body = [''L1'', ''bar qux'', ''L2'', ''bar baz'']\<rparr> = Some (Inr ())"
proof -
  have a: "CheckLine_init py_re ''foo'' Not (- 1) = Inr (ex_text_line ''foo'' Not)"
    by code_simp
  have b: "CheckLine_init py_re ''bar baz'' Not (- 1) = Inr ex_bar_baz"
    by code_simp
  have c: "CheckLine_match py_re (ex_text_line ''foo'' Not) ''bar qux'' (Some []) = Some (Inr None)"
    by code_simp
  have d: "CheckLine_match py_re ex_bar_baz ''bar qux'' (Some []) = Some (Inr None)"
    by code_simp
  have e: "CheckLine_match py_re ex_bar_baz ''bar qux'' None = Some (Inl TypeError)"
    by code_simp
  have f: "CheckGroup_match py_re
     \<lparr>name = ''G'', lines = [ex_text_line ''L1'' InOrder, ex_text_line ''foo'' Not, ex_bar_baz,
                             ex_text_line ''L2'' InOrder]\<rparr>
     \<lparr>oname = ''G'', body = [''L1'', ''bar qux'', ''L2'', ''bar baz'']\<rparr> = Some (Inl TypeError)"
    by code_simp
  have g: "CheckGroup_match py_re
     \<lparr>name = ''G'', lines = [ex_text_line ''L1'' InOrder, ex_bar_baz, ex_text_line ''L2'' InOrder]\<rparr>
     \<lparr>oname = ''G'', body = [''L1'', ''bar qux'', ''L2'', ''bar baz'']\<rparr> = Some (Inr ())"
    by code_simp
  show ?thesis
    by (rule conjI[OF a conjI[OF b conjI[OF c conjI[OF d conjI[OF e conjI[OF f g]]]]]])
qed

text \<open>
  C6. A trailing negative span is checked against the output after the last independent
  match (all of it when the group has only \<open>Not\<close> lines), and a single \<open>Not\<close> line
  fails the group exactly when it matches there. With two \<open>Not\<close> lines the second is
  matched with \<open>None\<close> in place of the variable state: no \<open>Not\<close> line matches
  \<open>bar qux\<close>, and the group fails with \<open>TypeError\<close> all the same.
\<close>

theorem trailing_negative_second_line_raises:
  "CheckLine_match py_re (ex_text_line ''foo'' Not) ''bar qux'' (Some []) = Some (Inr None) \<and>
   CheckLine_match py_re ex_bar_baz ''bar qux'' (Some []) = Some (Inr None) \<and>
   matchNotLines py_re [ex_text_line ''foo'' Not, ex_bar_baz] [''bar qux''] (Some []) = Some (Inl TypeError) \<and>
   CheckGroup_match py_re
     \<lparr>name = ''G'', lines = [ex_text_line ''L1'' InOrder, ex_text_line ''foo'' Not, ex_bar_baz]\<rparr>
     \<lparr>oname = ''G'', body = [''L1'', ''bar qux'']\<rparr> = Some (Inl TypeError) \<and>
   CheckGroup_match py_re
     \<lparr>name = ''G'', lines = [ex_text_line ''foo'' Not, ex_bar_baz]\<rparr>
     \<lparr>oname = ''G'', body = [''bar qux'']\<rparr> = Some (Inl TypeError) \<and>
   CheckGroup_match py_re
     \<lparr>name = ''G'', lines = [ex_text_line ''L1'' InOrder, ex_bar_baz]\<rparr>
     \<lparr>oname = ''G'', body = [''L1'', ''bar qux'']\<rparr> = Some (Inr ())"
proof -
  have c: "CheckLine_match py_re (ex_text_line ''foo'' Not) ''bar qux'' (Some []) = Some (Inr None)"
    by code_simp
  have d: "CheckLine_match py_re ex_bar_baz ''bar qux'' (Some []) = Some (Inr None)"
    by code_simp
  have e: "matchNotLines py_re [ex_text_line ''foo'' Not, ex_bar_baz] [''bar qux''] (Some []) = Some (Inl TypeError)"
    by code_simp
  have f: "CheckGroup_match py_re
     \<lparr>name = ''G'', lines = [ex_text_line ''L1'' InOrder, ex_text_line ''foo'' Not, ex_bar_baz]\<rparr>
     \<lparr>oname = ''G'', body = [''L1'', ''bar qux'']\<rparr> = Some (Inl TypeError)"
    by code_simp
  have g: "CheckGroup_match py_re
     \<lparr>name = ''G'', lines = [ex_text_line ''foo'' Not, ex_bar_baz]\<rparr>
     \<lparr>oname = ''G'', body = [''bar qux'']\<rparr> = Some (Inl TypeError)"
    by code_simp
  have h: "CheckGroup_match py_re
     \<lparr>name = ''G'', lines = [ex_text_line ''L1'' InOrder, ex_bar_baz]\<rparr>
     \<lparr>oname = ''G'', body = [''L1'', ''bar qux'']\<rparr> = Some (Inr ())"
    by code_simp
  show ?thesis
    by (rule conjI[OF c conjI[OF d conjI[OF e conjI[OF f conjI[OF g h]]]]])
qed

section \<open>Termination of a line match\<close>

definition ex_star_line :: CheckLine where
  "ex_star_line = \<lparr>content = ''{{a*}}b'', variant = InOrder, lineNo = - 1,
     lineParts = [Pattern ''a*'', Text ''b'']\<rparr>"

lemma ex_star_search: "re_search py_re ''a*'' (drop n ''c'') = ReSome (0, 0)"
proof (cases n)
  case 0
  have "re_search py_re ''a*'' ''c'' = ReSome (0, 0)" by code_simp
  with 0 show ?thesis by simp
next
  case (Suc k)
  have "re_search py_re ''a*'' [] = ReSome (0, 0)" by code_simp
  with Suc show ?thesis by simp
qed

lemma ex_star_chain: "match_parts py_re [Pattern ''a*'', Text ''b''] ''c'' n [] = Inr None"
proof (cases n)
  case 0
  have "match_parts py_re [Pattern ''a*'', Text ''b''] ''c'' 0 [] = Inr None" by code_simp
  with 0 show ?thesis by simp
next
  case (Suc k)
  have a: "re_match py_re ''a*'' [] = ReSome 0" by code_simp
  have b: "re_match py_re ''b'' [] = ReNone" by code_simp
  from Suc a b show ?thesis by (simp add: generatePattern_def)
qed

lemma ex_star_loop_never_returns:
  assumes "match_loop eng parts out ivs pat n = Some r"
  shows "\<not> (eng = py_re \<and> parts = [Pattern ''a*'', Text ''b''] \<and> out = ''c'' \<and> ivs = Some [] \<and>
            pat = ''a*'')"
  using assms
proof (induction eng parts out ivs pat n r rule: match_loop.raw_induct[rotated, consumes 1])
  case (1 match_loop' eng parts out ivs pat n r)
  show ?case
  proof
    assume a: "eng = py_re \<and> parts = [Pattern ''a*'', Text ''b''] \<and> out = ''c'' \<and> ivs = Some [] \<and>
            pat = ''a*''"
    with 1(2) have "match_loop' eng parts out ivs pat (n + fst (0::nat, 0::nat) + 1) = Some r"
      by (simp add: ex_star_search ex_star_chain del: match_parts.simps)
    from 1(1)[OF this] a show False by simp
  qed
qed

text \<open>
  C5. \<open>CheckLine.match\<close> does not terminate on every input. The first element of the
  line \<open>{{a*}}b\<close> matches the empty string, so the search finds a start position in
  every rest of the output line \<open>c\<close>, also in the empty rest beyond its end; the chain
  fails at each of them, and the loop goes on: the match never returns, neither a table
  nor no match. The line references no name, so the empty table binds all the names it
  references. Against \<open>ab\<close> the same line matches at the first start position.
\<close>

theorem CheckLine_match_never_returns:
  "CheckLine_init py_re ''{{a*}}b'' InOrder (- 1) = Inr ex_star_line \<and>
   CheckLine_match py_re ex_star_line ''c'' (Some []) = None \<and>
   CheckLine_match py_re ex_star_line ''ab'' (Some []) = Some (Inr (Some []))"
proof -
  have i: "CheckLine_init py_re ''{{a*}}b'' InOrder (- 1) = Inr ex_star_line" by code_simp
  have r: "CheckLine_match py_re ex_star_line ''ab'' (Some []) = Some (Inr (Some []))" by code_simp
  have "match_loop py_re [Pattern ''a*'', Text ''b''] ''c'' (Some []) ''a*'' 0 = None"
  proof (cases "match_loop py_re [Pattern ''a*'', Text ''b''] ''c'' (Some []) ''a*'' 0")
    case None
    then show ?thesis .
  next
    case (Some r)
    from ex_star_loop_never_returns[OF Some] show ?thesis by simp
  qed
  then have n: "CheckLine_match py_re ex_star_line ''c'' (Some []) = None"
    by (simp add: CheckLine_match_def ex_star_line_def generatePattern_def)
  show ?thesis by (rule conjI[OF i conjI[OF n r]])
qed

text \<open>
  The start positions that the loop of \<open>CheckLine.match\<close> can try from the search
  position \<open>n\<close>: the first is where the search from \<open>n\<close> finds the pattern, and each
  further one is found by the search from one character past the previous start.
\<close>

inductive attempt_from :: "regex_engine \<Rightarrow> string \<Rightarrow> string \<Rightarrow> nat \<Rightarrow> nat \<Rightarrow> bool" where
  here: "re_search eng pat (drop n out) = ReSome m \<Longrightarrow> attempt_from eng pat out n (n + fst m)"
| later: "re_search eng pat (drop n out) = ReSome m \<Longrightarrow>
          attempt_from eng pat out (n + fst m + 1) s \<Longrightarrow> attempt_from eng pat out n s"

text \<open>
  \<open>first_attempt eng parts out vs pat n r\<close>: \<open>r\<close> is the outcome of the chain of elements
  at the first start position tried from \<open>n\<close> at which the chain does not fail, and
  \<open>Inr None\<close> (no match) when it fails at all of them.
\<close>

definition first_attempt :: "regex_engine \<Rightarrow> CheckElement list \<Rightarrow> string \<Rightarrow> varstate \<Rightarrow> string \<Rightarrow> nat
     \<Rightarrow> error + varstate option \<Rightarrow> bool" where
  "first_attempt eng parts out vs pat n r =
     (if r = Inr None
      then (\<forall>s. attempt_from eng pat out n s \<longrightarrow> match_parts eng parts out s vs = Inr None)
      else (\<exists>s. attempt_from eng pat out n s \<and> match_parts eng parts out s vs = r \<and>
                (\<forall>s'. attempt_from eng pat out n s' \<and> s' < s \<longrightarrow>
                      match_parts eng parts out s' vs = Inr None)))"

lemma attempt_from_ge: "attempt_from eng pat out n s \<Longrightarrow> n \<le> s"
  by (induction rule: attempt_from.induct) auto

lemma attempt_from_none:
  assumes "re_search eng pat (drop n out) = ReNone"
  shows "\<not> attempt_from eng pat out n s"
proof
  assume "attempt_from eng pat out n s"
  then show False using assms by (cases rule: attempt_from.cases) auto
qed

lemma attempt_from_split:
  assumes "re_search eng pat (drop n out) = ReSome m" and "attempt_from eng pat out n s"
  shows "s = n + fst m \<or> attempt_from eng pat out (n + fst m + 1) s"
  using assms(2,1) by (cases rule: attempt_from.cases) auto

lemma match_loop_terminates:
  assumes e: "re_search eng pat [] = ReNone"
    and c: "\<forall>k. re_search eng pat (drop k out) \<noteq> ReError"
  shows "\<exists>r. match_loop eng parts out (Some vs) pat n = Some r \<and> first_attempt eng parts out vs pat n r"
proof (induction "length out + 1 - n" arbitrary: n rule: less_induct)
  case less
  show ?case
  proof (cases "re_search eng pat (drop n out)")
    case ReError
    with c show ?thesis by blast
  next
    case ReNone
    then have "match_loop eng parts out (Some vs) pat n = Some (Inr None)"
      by (subst match_loop.simps) simp
    moreover have "first_attempt eng parts out vs pat n (Inr None)"
      using attempt_from_none[OF ReNone] by (simp add: first_attempt_def)
    ultimately show ?thesis by blast
  next
    case (ReSome m)
    with e have n: "n < length out + 1" by (cases "n \<le> length out") auto
    let ?s = "n + fst m"
    have h: "attempt_from eng pat out n ?s" using ReSome by (rule attempt_from.here)
    have before: "\<forall>s'. attempt_from eng pat out n s' \<and> s' < ?s \<longrightarrow>
        match_parts eng parts out s' vs = Inr None"
    proof (intro allI impI)
      fix s' assume a: "attempt_from eng pat out n s' \<and> s' < ?s"
      from attempt_from_split[OF ReSome a[THEN conjunct1]] a attempt_from_ge[of eng pat out "?s + 1" s']
      show "match_parts eng parts out s' vs = Inr None" by auto
    qed
    show ?thesis
    proof (cases "match_parts eng parts out ?s vs = Inr None")
      case False
      then have "match_loop eng parts out (Some vs) pat n = Some (match_parts eng parts out ?s vs)"
        using ReSome by (subst match_loop.simps) (simp split: sum.splits option.splits)
      moreover have "first_attempt eng parts out vs pat n (match_parts eng parts out ?s vs)"
        using False h before unfolding first_attempt_def by auto
      ultimately show ?thesis by blast
    next
      case True
      then have step: "match_loop eng parts out (Some vs) pat n =
          match_loop eng parts out (Some vs) pat (?s + 1)"
        using ReSome by (subst match_loop.simps) simp
      from n have "length out + 1 - (?s + 1) < length out + 1 - n" by simp
      from less[OF this] obtain r where
        r: "match_loop eng parts out (Some vs) pat (?s + 1) = Some r"
           "first_attempt eng parts out vs pat (?s + 1) r" by blast
      have "first_attempt eng parts out vs pat n r"
      proof (cases "r = Inr None")
        case True
        with r(2) have all: "\<forall>s. attempt_from eng pat out (?s + 1) s \<longrightarrow>
            match_parts eng parts out s vs = Inr None"
          by (simp add: first_attempt_def)
        have "\<forall>s. attempt_from eng pat out n s \<longrightarrow> match_parts eng parts out s vs = Inr None"
        proof (intro allI impI)
          fix s assume "attempt_from eng pat out n s"
          from attempt_from_split[OF ReSome this] all \<open>match_parts eng parts out ?s vs = Inr None\<close>
          show "match_parts eng parts out s vs = Inr None" by auto
        qed
        with True show ?thesis by (simp add: first_attempt_def)
      next
        case False
        with r(2) obtain s where s: "attempt_from eng pat out (?s + 1) s"
          "match_parts eng parts out s vs = r"
          "\<forall>s'. attempt_from eng pat out (?s + 1) s' \<and> s' < s \<longrightarrow>
             match_parts eng parts out s' vs = Inr None"
          unfolding first_attempt_def by auto
        have s1: "attempt_from eng pat out n s" using ReSome s(1) by (rule attempt_from.later)
        have s3: "\<forall>s'. attempt_from eng pat out n s' \<and> s' < s \<longrightarrow>
             match_parts eng parts out s' vs = Inr None"
        proof (intro allI impI)
          fix s' assume a: "attempt_from eng pat out n s' \<and> s' < s"
          from attempt_from_split[OF ReSome a[THEN conjunct1]] a s(3)
            \<open>match_parts eng parts out ?s vs = Inr None\<close>
          show "match_parts eng parts out s' vs = Inr None" by auto
        qed
        from False s1 s(2) s3 show ?thesis unfolding first_attempt_def by auto
      qed
      with step r(1) show ?thesis by simp
    qed
  qed
qed

lemma py_search_no_error: "parse_rx p = Some atoms \<Longrightarrow> re_search py_re p s \<noteq> ReError"
  by (simp add: py_re_def py_search_def split: option.splits)

text \<open>
  A condition under which the loop ends. Let the first element of the line have the
  pattern \<open>pat\<close> under the variable state, and let the search for \<open>pat\<close> raise no
  error and find nothing in the empty string. Then \<open>CheckLine.match\<close> returns, and its
  result is the outcome of the
  chain of elements at the first start position at which the chain does not fail (the new
  state when every element matches there, the exception that the chain raises there), or
  no match when the chain fails at every start position. The start positions are those
  that the search finds, each search resuming one character past the previous start.
\<close>

theorem CheckLine_match_returns:
  assumes "lineParts cl = p # ps"
    and "generatePattern eng p (Some vs) = Inr pat"
    and "re_search eng pat [] = ReNone"
    and "\<forall>k. re_search eng pat (drop k out) \<noteq> ReError"
  shows "\<exists>r. CheckLine_match eng cl out (Some vs) = Some r \<and>
             first_attempt eng (lineParts cl) out vs pat 0 r"
proof -
  have "CheckLine_match eng cl out (Some vs) = match_loop eng (lineParts cl) out (Some vs) pat 0"
    using assms(1,2) by (simp add: CheckLine_match_def)
  with match_loop_terminates[OF assms(3,4), of "lineParts cl" vs 0] show ?thesis by simp
qed

theorem CheckLine_match_returns_witness:
  "re_search py_re ''[0-9]+'' [] = ReNone \<and>
   CheckLine_match py_re ex_def_line ''a 12 foo'' (Some []) = Some (Inr (Some [(''X'', ''12'')])) \<and>
   (\<exists>r. CheckLine_match py_re ex_def_line ''a 12 foo'' (Some []) = Some r \<and>
        first_attempt py_re (lineParts ex_def_line) ''a 12 foo'' [] ''[0-9]+'' 0 r)"
proof -
  have l: "lineParts ex_def_line = VarDef ''X'' ''[0-9]+'' # [Pattern (backslash # ''s+''), Text ''foo'']"
    by (simp add: ex_def_line_def)
  have g: "generatePattern py_re (VarDef ''X'' ''[0-9]+'') (Some []) = Inr ''[0-9]+''"
    by (simp add: generatePattern_def)
  have e: "re_search py_re ''[0-9]+'' [] = ReNone"
    by code_simp
  have p: "parse_rx ''[0-9]+'' = Some [Atom (CSet [(CHR ''0'', CHR ''9'')]) QPlus]"
    by code_simp
  have c: "\<forall>k. re_search py_re ''[0-9]+'' (drop k ''a 12 foo'') \<noteq> ReError"
    using py_search_no_error[OF p] by (rule allI)
  have m: "CheckLine_match py_re ex_def_line ''a 12 foo'' (Some []) = Some (Inr (Some [(''X'', ''12'')]))"
    by code_simp
  note t = CheckLine_match_returns[OF l g e c]
  show ?thesis
    by (rule conjI[OF e conjI[OF m t]])
qed

section \<open>Literal text\<close>

text \<open>
  Two more facts about \<open>re\<close> that matching literal text relies on: the search for the
  escaped form of \<open>x\<close> finds the leftmost occurrence of \<open>x\<close>, and the pattern \<open>\s+\<close>
  matches the longest run of whitespace at the start of the string.
\<close>

definition literal_at :: "string \<Rightarrow> string \<Rightarrow> nat option" where
  "literal_at x u = (if startswith u x then Some (length x) else None)"

definition escape_search :: "regex_engine \<Rightarrow> bool" where
  "escape_search eng =
     (\<forall>x s. re_search eng (re_escape eng x) s =
              (case search_by (literal_at x) s of None \<Rightarrow> ReNone | Some m \<Rightarrow> ReSome m))"

definition space_run :: "regex_engine \<Rightarrow> bool" where
  "space_run eng =
     (\<forall>s. re_match eng (backslash # ''s+'') s =
            (case match_whitespace s of None \<Rightarrow> ReNone | Some n \<Rightarrow> ReSome n))"

lemma py_re_escape_search: "escape_search py_re"
proof -
  have "rx_match (map (\<lambda>c. Atom (CChar c) QOne) x) = literal_at x" for x
    by (rule ext) (simp add: rx_match_literal literal_at_def)
  then show ?thesis
    by (simp add: escape_search_def py_re_def py_search_def parse_rx_py_escape)
qed

lemma rx_match_space_star: "rx_match [Atom CSpace QStar] s = Some (length (takeWhile isspace s))"
  by (induction s) auto

lemma rx_match_space_plus: "rx_match [Atom CSpace QPlus] s = match_whitespace s"
  by (cases s) (auto simp: match_whitespace_def rx_match_space_star)

lemma py_re_space_run: "space_run py_re"
proof -
  have "parse_rx (backslash # ''s+'') = Some [Atom CSpace QPlus]" by code_simp
  then show ?thesis
    by (simp add: space_run_def py_re_def py_match_def rx_match_space_plus split: option.splits)
qed

declare parse.simps [simp del]

text \<open>\<open>contains s m\<close> is Python's \<open>m in s\<close>.\<close>

fun contains :: "string \<Rightarrow> string \<Rightarrow> bool" where
  "contains [] m = (m = [])"
| "contains (c # cs) m = (startswith (c # cs) m \<or> contains cs m)"

lemma contains_drop: "contains (drop k s) m \<Longrightarrow> contains s m"
proof (induction s arbitrary: k)
  case Nil
  then show ?case by simp
next
  case (Cons c cs)
  then show ?case by (cases k) auto
qed

lemma contains_startswith: "startswith s m \<Longrightarrow> contains s m"
  by (cases s) (auto simp: startswith_def)

lemma startswith_append: "startswith a m \<Longrightarrow> startswith (a @ b) m"
proof -
  assume a: "startswith a m"
  then have "length (take (length m) a) = length m" by (simp add: startswith_def)
  then have "length m \<le> length a" by simp
  with a show ?thesis by (simp add: startswith_def)
qed

lemma contains_append_right: "contains a m \<Longrightarrow> contains (a @ b) m"
proof (induction a)
  case Nil
  then show ?case by (cases b) (auto simp: startswith_def)
next
  case (Cons c cs)
  then show ?case using startswith_append[of "c # cs" m b] by auto
qed

lemma search_by_None: "(\<And>i. m (drop i s) = None) \<Longrightarrow> search_by m s = None"
proof (induction s)
  case Nil
  from Nil[of 0] show ?case by simp
next
  case (Cons c cs)
  have "m (drop i cs) = None" for i using Cons.prems[of "Suc i"] by simp
  from Cons.IH[OF this] Cons.prems[of 0] show ?case by simp
qed

lemma match_pattern_starts: "match_pattern u = Some k \<Longrightarrow> startswith u ''{{''"
  by (cases u rule: match_pattern.cases) (auto simp: startswith_def split: if_splits)

lemma match_variable_starts: "match_variable u = Some k \<Longrightarrow> startswith u ''[[''"
  by (cases u rule: match_variable.cases) (auto simp: startswith_def split: if_splits)

lemma no_pattern_search:
  assumes "\<not> contains s ''{{''"
  shows "search_by match_pattern s = None"
proof (rule search_by_None)
  fix i
  show "match_pattern (drop i s) = None"
  proof (cases "match_pattern (drop i s)")
    case (Some k)
    from contains_drop[OF contains_startswith[OF match_pattern_starts[OF Some]]] assms
    show ?thesis by simp
  qed simp
qed

lemma no_variable_search:
  assumes "\<not> contains s ''[[''"
  shows "search_by match_variable s = None"
proof (rule search_by_None)
  fix i
  show "match_variable (drop i s) = None"
  proof (cases "match_variable (drop i s)")
    case (Some k)
    from contains_drop[OF contains_startswith[OF match_variable_starts[OF Some]]] assms
    show ?thesis by simp
  qed simp
qed

lemma match_whitespace_Some:
  "match_whitespace s = (if s \<noteq> [] \<and> isspace (hd s) then Some (length (takeWhile isspace s)) else None)"
  by (cases s) (auto simp: match_whitespace_def)

lemma isMatchAtStart_search_by: "isMatchAtStart (search_by m s) = (m s \<noteq> None)"
  by (cases s) (auto simp: isMatchAtStart_def split: option.splits)

lemma match_end_search_by: "m s = Some e \<Longrightarrow> match_end (search_by m s) = e"
  by (cases s) (auto simp: match_end_def)

lemma search_whitespace_start:
  "(case search_by match_whitespace s of None \<Rightarrow> length s | Some (st, e) \<Rightarrow> st) =
     length (takeWhile (\<lambda>c. \<not> isspace c) s)"
proof (induction s)
  case Nil
  then show ?case by (simp add: match_whitespace_def)
next
  case (Cons c cs)
  show ?case
  proof (cases "isspace c")
    case True
    then have "match_whitespace (c # cs) = Some (length (takeWhile isspace (c # cs)))"
      by (subst match_whitespace_Some) simp
    with True show ?thesis by simp
  next
    case False
    then have w: "match_whitespace (c # cs) = None"
      by (subst match_whitespace_Some) simp
    show ?thesis
    proof (cases "search_by match_whitespace cs")
      case None
      with Cons False w show ?thesis by simp
    next
      case (Some m)
      with Cons False w show ?thesis by (cases m) simp
    qed
  qed
qed

lemma firstMatch_plain:
  "firstMatch [search_by match_whitespace s, None, None] s = length (takeWhile (\<lambda>c. \<not> isspace c) s)"
proof -
  have "length (takeWhile (\<lambda>c. \<not> isspace c) s) \<le> length s" by (rule length_takeWhile_le)
  then show ?thesis
    using search_whitespace_start[of s] by (simp add: firstMatch_def min_def)
qed

lemma drop_takeWhile_length: "drop (length (takeWhile P s)) s = dropWhile P s"
  by (induction s) auto

lemma take_takeWhile_length: "take (length (takeWhile P s)) s = takeWhile P s"
  by (induction s) auto

lemma parse_plain:
  assumes "\<not> contains s ''{{''" and "\<not> contains s ''[[''"
  shows "parse eng var lno s =
     (if s = [] then Inr []
      else if isspace (hd s) then
        (case parse eng var lno (dropWhile isspace s) of
           Inl e \<Rightarrow> Inl e
         | Inr ps \<Rightarrow> Inr (Pattern (backslash # ''s+'') # ps))
      else
        (case parse eng var lno (dropWhile (\<lambda>c. \<not> isspace c) s) of
           Inl e \<Rightarrow> Inl e
         | Inr ps \<Rightarrow> Inr (Text (re_escape eng (takeWhile (\<lambda>c. \<not> isspace c) s)) # ps)))"
proof (cases "s = []")
  case True
  then show ?thesis by (subst parse.simps) simp
next
  case False
  note ne = this
  note np = no_pattern_search[OF assms(1)]
  note nv = no_variable_search[OF assms(2)]
  show ?thesis
  proof (cases "isspace (hd s)")
    case True
    with ne have w: "match_whitespace s = Some (length (takeWhile isspace s))"
      by (simp add: match_whitespace_Some)
    then have a: "isMatchAtStart (search_by match_whitespace s)"
      by (simp add: isMatchAtStart_search_by)
    show ?thesis
      using ne True a
      by (subst parse.simps)
        (simp add: match_end_search_by[of match_whitespace s, OF w] drop_takeWhile_length
          parsePattern_def cong: sum.case_cong)
  next
    case False
    with ne have w: "match_whitespace s = None" by (simp add: match_whitespace_Some)
    then have a: "\<not> isMatchAtStart (search_by match_whitespace s)"
      by (simp add: isMatchAtStart_search_by)
    have b: "\<not> isMatchAtStart (None :: (nat \<times> nat) option)" by (simp add: isMatchAtStart_def)
    show ?thesis
      using ne False a b
      by (subst parse.simps)
        (simp add: np nv firstMatch_plain drop_takeWhile_length take_takeWhile_length parseText_def
          cong: sum.case_cong)
  qed
qed

lemma dropWhile_shorter: "s \<noteq> [] \<Longrightarrow> P (hd s) \<Longrightarrow> length (dropWhile P s) < length s"
  by (cases s) (auto simp: less_Suc_eq_le length_dropWhile_le)

lemma last_dropWhile_same: "dropWhile P s \<noteq> [] \<Longrightarrow> last (dropWhile P s) = last s"
  by (induction s) (auto split: if_splits)

lemma dropWhile_nonempty_last: "s \<noteq> [] \<Longrightarrow> \<not> P (last s) \<Longrightarrow> dropWhile P s \<noteq> []"
  by (induction s) (auto split: if_splits)

lemma takeWhile_append_tail:
  assumes "s \<noteq> []" and "\<not> P (last s)"
  shows "takeWhile P (s @ tail) = takeWhile P s"
proof -
  from assms have "last s \<in> set s" by simp
  with assms(2) have "\<exists>x\<in>set s. \<not> P x" by blast
  then show ?thesis by (auto simp: takeWhile_append1 dest: takeWhile_append1)
qed

lemma parse_plain_matches:
  assumes el: "escape_literal eng" and sr: "space_run eng"
  shows "\<not> contains s ''{{'' \<Longrightarrow> \<not> contains s ''[['' \<Longrightarrow> s = [] \<or> \<not> isspace (last s) \<Longrightarrow>
     \<exists>ps. parse eng var lno s = Inr ps \<and> (s \<noteq> [] \<longrightarrow> ps \<noteq> []) \<and>
          (\<forall>out ms vs tail. drop ms out = s @ tail \<longrightarrow> match_parts eng ps out ms vs = Inr (Some vs))"
proof (induction "length s" arbitrary: s rule: less_induct)
  case less
  note pp = parse_plain[OF less.prems(1,2), of eng var lno]
  show ?case
  proof (cases "s = []")
    case True
    with pp show ?thesis by simp
  next
    case False
    note ne = this
    with less.prems(3) have lst: "\<not> isspace (last s)" by simp
    show ?thesis
    proof (cases "isspace (hd s)")
      case True
      let ?r = "dropWhile isspace s"
      let ?k = "length (takeWhile isspace s)"
      have r: "?r = drop ?k s" by (simp add: drop_takeWhile_length)
      have len: "length ?r < length s" using ne True by (rule dropWhile_shorter)
      have rne: "?r \<noteq> []" using ne lst by (rule dropWhile_nonempty_last)
      have n1: "\<not> contains ?r ''{{''" using less.prems(1) contains_drop[of ?k s] r by auto
      have n2: "\<not> contains ?r ''[[''" using less.prems(2) contains_drop[of ?k s] r by auto
      have l: "?r = [] \<or> \<not> isspace (last ?r)" using last_dropWhile_same[OF rne] lst by simp
      from less.hyps[OF len n1 n2 l] obtain ps where
        ps: "parse eng var lno ?r = Inr ps"
        "\<forall>out ms vs tail. drop ms out = ?r @ tail \<longrightarrow> match_parts eng ps out ms vs = Inr (Some vs)"
        by blast
      have p: "parse eng var lno s = Inr (Pattern (backslash # ''s+'') # ps)"
        using pp ne True ps(1) by simp
      have m: "match_parts eng (Pattern (backslash # ''s+'') # ps) out ms vs = Inr (Some vs)"
        if d: "drop ms out = s @ tail" for out ms vs tail
      proof -
        have tw: "takeWhile isspace (s @ tail) = takeWhile isspace s"
          using ne lst by (rule takeWhile_append_tail)
        have "s @ tail \<noteq> [] \<and> isspace (hd (s @ tail))" using ne True by simp
        then have "match_whitespace (s @ tail) = Some ?k"
          by (subst match_whitespace_Some) (simp add: tw)
        with sr d have rm: "re_match eng (backslash # ''s+'') (drop ms out) = ReSome ?k"
          by (simp add: space_run_def)
        have "?k \<le> length s" by (rule length_takeWhile_le)
        then have "drop (ms + ?k) out = ?r @ tail"
          using d r by (simp add: add.commute[of ms] drop_drop[symmetric] del: drop_drop)
        with ps(2) have "match_parts eng ps out (ms + ?k) vs = Inr (Some vs)" by blast
        with rm show ?thesis by (simp add: generatePattern_def)
      qed
      from p m show ?thesis by blast
    next
      case False
      let ?r = "dropWhile (\<lambda>c. \<not> isspace c) s"
      let ?chunk = "takeWhile (\<lambda>c. \<not> isspace c) s"
      let ?k = "length ?chunk"
      have r: "?r = drop ?k s" by (simp add: drop_takeWhile_length)
      have len: "length ?r < length s" using ne False by (intro dropWhile_shorter) simp_all
      have n1: "\<not> contains ?r ''{{''" using less.prems(1) contains_drop[of ?k s] r by auto
      have n2: "\<not> contains ?r ''[[''" using less.prems(2) contains_drop[of ?k s] r by auto
      have l: "?r = [] \<or> \<not> isspace (last ?r)"
      proof (cases "?r = []")
        case True
        then show ?thesis by (rule disjI1)
      next
        case False
        from last_dropWhile_same[OF False] lst show ?thesis by simp
      qed
      from less.hyps[OF len n1 n2 l] obtain ps where
        ps: "parse eng var lno ?r = Inr ps"
        "\<forall>out ms vs tail. drop ms out = ?r @ tail \<longrightarrow> match_parts eng ps out ms vs = Inr (Some vs)"
        by blast
      have p: "parse eng var lno s = Inr (Text (re_escape eng ?chunk) # ps)"
        using pp ne False ps(1) by simp
      have m: "match_parts eng (Text (re_escape eng ?chunk) # ps) out ms vs = Inr (Some vs)"
        if d: "drop ms out = s @ tail" for out ms vs tail
      proof -
        have kl: "?k \<le> length s" by (rule length_takeWhile_le)
        then have "take ?k (s @ tail) = ?chunk" by (simp add: take_takeWhile_length)
        then have "startswith (drop ms out) ?chunk" using d by (simp add: startswith_def)
        with el have rm: "re_match eng (re_escape eng ?chunk) (drop ms out) = ReSome ?k"
          by (simp add: escape_literal_def)
        from kl have "drop (ms + ?k) out = ?r @ tail"
          using d r by (simp add: add.commute[of ms] drop_drop[symmetric] del: drop_drop)
        with ps(2) have "match_parts eng ps out (ms + ?k) vs = Inr (Some vs)" by blast
        with rm show ?thesis by (simp add: generatePattern_def)
      qed
      from p m show ?thesis by blast
    qed
  qed
qed

lemma strip_decomp:
  assumes "\<exists>c\<in>set t. \<not> isspace c"
  shows "\<exists>w1 w2. t = w1 @ strip t @ w2 \<and> (\<forall>c\<in>set w1. isspace c) \<and> strip t \<noteq> [] \<and>
           \<not> isspace (hd (strip t)) \<and> \<not> isspace (last (strip t))"
proof -
  let ?u = "dropWhile isspace t"
  let ?v = "dropWhile isspace (rev ?u)"
  have une: "?u \<noteq> []" using assms by (simp add: dropWhile_eq_Nil_conv)
  have hu: "\<not> isspace (hd ?u)" using une by (rule hd_dropWhile)
  have "hd ?u \<in> set (rev ?u)" using une by simp
  with hu have vne: "?v \<noteq> []" by (auto simp: dropWhile_eq_Nil_conv simp del: set_rev)
  have hv: "\<not> isspace (hd ?v)" using vne by (rule hd_dropWhile)
  have s: "strip t = rev ?v" by (simp add: strip_def)
  have "last ?v = last (rev ?u)" using vne by (rule last_dropWhile_same)
  also have "\<dots> = hd ?u" using une by (simp add: last_rev)
  finally have lv: "last ?v = hd ?u" .
  have h: "hd (strip t) = hd ?u" using s vne lv by (simp add: hd_rev)
  have l: "last (strip t) = hd ?v" using s vne by (simp add: last_rev)
  have "rev ?v @ rev (takeWhile isspace (rev ?u)) = rev (takeWhile isspace (rev ?u) @ ?v)"
    by (simp only: rev_append)
  also have "\<dots> = rev (rev ?u)" by (simp only: takeWhile_dropWhile_id)
  finally have "rev ?v @ rev (takeWhile isspace (rev ?u)) = ?u" by (simp only: rev_rev_ident)
  then have u: "?u = strip t @ rev (takeWhile isspace (rev ?u))" by (simp only: s)
  have "t = takeWhile isspace t @ ?u" by simp
  with u have "t = takeWhile isspace t @ strip t @ rev (takeWhile isspace (rev ?u))" by simp
  moreover have "\<forall>c\<in>set (takeWhile isspace t). isspace c" by (auto dest: set_takeWhileD)
  moreover have "strip t \<noteq> []" using s vne by simp
  ultimately show ?thesis using h hu l hv by metis
qed

lemma search_literal_after_spaces:
  assumes "\<forall>c\<in>set w1. isspace c" and "x \<noteq> []" and "\<not> isspace (hd x)" and "startswith u x"
  shows "search_by (literal_at x) (w1 @ u) = Some (length w1, length w1 + length x)"
  using assms(1)
proof (induction w1)
  case Nil
  from assms(4) show ?case by (cases u) (simp_all add: literal_at_def)
next
  case (Cons c w)
  have "\<not> startswith (c # w @ u) x"
  proof
    assume "startswith (c # w @ u) x"
    with assms(2) have "hd x = c" by (cases x) (auto simp: startswith_def)
    with assms(3) Cons.prems show False by simp
  qed
  then have "literal_at x (c # w @ u) = None" by (simp add: literal_at_def)
  with Cons show ?case by simp
qed

text \<open>
  C7, as amended. A text with at least one character that is not whitespace, and without
  the four markers, compiles to a check line, and this line matches the text itself with
  the variable state unchanged. The engine is one in which escaped text matches and is
  found literally and \<open>\s+\<close> matches a run of whitespace.
\<close>

theorem literal_text_matches_itself:
  assumes "escape_literal eng" and "escape_search eng" and "space_run eng"
    and "\<not> contains t ''{{''" and "\<not> contains t ''}}''"
    and "\<not> contains t ''[[''" and "\<not> contains t '']]''"
    and "\<exists>c\<in>set t. \<not> isspace c"
  shows "\<exists>cl. CheckLine_init eng t var lno = Inr cl \<and>
              CheckLine_match eng cl t (Some vs) = Some (Inr (Some vs))"
proof -
  from strip_decomp[OF assms(8)] obtain w1 w2 where
    d: "t = w1 @ strip t @ w2" and w1: "\<forall>c\<in>set w1. isspace c" and ne: "strip t \<noteq> []"
    and hd: "\<not> isspace (hd (strip t))" and lst: "\<not> isspace (last (strip t))" by blast
  let ?s = "strip t"
  have dr: "drop (length w1) t = ?s @ w2" by (subst d) simp
  have c1: "contains t m" if "contains ?s m" for m
  proof -
    from that have "contains (?s @ w2) m" by (rule contains_append_right)
    with dr have "contains (drop (length w1) t) m" by simp
    then show ?thesis by (rule contains_drop)
  qed
  have n1: "\<not> contains ?s ''{{''" using c1 assms(4) by blast
  have n2: "\<not> contains ?s ''[[''" using c1 assms(6) by blast
  from parse_plain_matches[OF assms(1,3) n1 n2, of var lno] lst obtain ps where
    ps: "parse eng var lno ?s = Inr ps" "ps \<noteq> []"
    "\<forall>out ms vs tail. drop ms out = ?s @ tail \<longrightarrow> match_parts eng ps out ms vs = Inr (Some vs)"
    using ne by blast
  let ?chunk = "takeWhile (\<lambda>c. \<not> isspace c) ?s"
  from parse_plain[OF n1 n2, of eng var lno] ne hd ps(1) obtain ps' where
    hp: "ps = Text (re_escape eng ?chunk) # ps'"
    by (auto split: sum.splits)
  let ?cl = "\<lparr>content = ?s, variant = var, lineNo = lno, lineParts = ps\<rparr>"
  have i: "CheckLine_init eng t var lno = Inr ?cl"
    using ps(1,2) by (simp add: CheckLine_init_def)
  have cne: "?chunk \<noteq> []" using ne hd by (cases ?s) auto
  have chd: "\<not> isspace (hd ?chunk)" using ne hd by (cases ?s) auto
  have "take (length ?chunk) (?s @ w2) = ?chunk"
    using length_takeWhile_le[of "\<lambda>c. \<not> isspace c" ?s] by (simp add: take_takeWhile_length)
  then have st: "startswith (?s @ w2) ?chunk" by (simp add: startswith_def)
  have "search_by (literal_at ?chunk) (w1 @ ?s @ w2) = Some (length w1, length w1 + length ?chunk)"
    using w1 cne chd st by (rule search_literal_after_spaces)
  with d have "search_by (literal_at ?chunk) t = Some (length w1, length w1 + length ?chunk)"
    by simp
  with assms(2) have se: "re_search eng (re_escape eng ?chunk) (drop 0 t) =
      ReSome (length w1, length w1 + length ?chunk)"
    by (simp add: escape_search_def)
  from ps(3) dr have mp: "match_parts eng ps t (0 + fst (length w1, length w1 + length ?chunk)) vs = Inr (Some vs)"
    by simp
  have "match_loop eng ps t (Some vs) (re_escape eng ?chunk) 0 = Some (Inr (Some vs))"
    by (subst match_loop.simps) (simp only: se mp re_result.case option.case sum.case)
  then have "CheckLine_match eng ?cl t (Some vs) = Some (Inr (Some vs))"
    by (simp add: CheckLine_match_def hp generatePattern_def)
  with i show ?thesis by blast
qed

theorem literal_text_matches_itself_witness:
  "escape_literal py_re \<and> escape_search py_re \<and> space_run py_re \<and>
   CheckLine_init py_re ''  x = a[1]  + {b} '' InOrder 7 =
     Inr \<lparr>content = ''x = a[1]  + {b}'', variant = InOrder, lineNo = 7,
          lineParts = [Text ''x'', Pattern (backslash # ''s+''), Text (backslash # ''=''),
                       Pattern (backslash # ''s+''), Text (''a'' @ backslash # ''[1'' @ backslash # '']''),
                       Pattern (backslash # ''s+''), Text (backslash # ''+''),
                       Pattern (backslash # ''s+''), Text (backslash # ''{b'' @ backslash # ''}'')]\<rparr> \<and>
   (\<exists>cl. CheckLine_init py_re ''  x = a[1]  + {b} '' InOrder 7 = Inr cl \<and>
         CheckLine_match py_re cl ''  x = a[1]  + {b} '' (Some [(''V'', ''1'')]) =
           Some (Inr (Some [(''V'', ''1'')])))"
proof -
  have n1: "\<not> contains ''  x = a[1]  + {b} '' ''{{''" by code_simp
  have n2: "\<not> contains ''  x = a[1]  + {b} '' ''}}''" by code_simp
  have n3: "\<not> contains ''  x = a[1]  + {b} '' ''[[''" by code_simp
  have n4: "\<not> contains ''  x = a[1]  + {b} '' '']]''" by code_simp
  have c: "\<exists>c\<in>set ''  x = a[1]  + {b} ''. \<not> isspace c" by code_simp
  have i: "CheckLine_init py_re ''  x = a[1]  + {b} '' InOrder 7 =
     Inr \<lparr>content = ''x = a[1]  + {b}'', variant = InOrder, lineNo = 7,
          lineParts = [Text ''x'', Pattern (backslash # ''s+''), Text (backslash # ''=''),
                       Pattern (backslash # ''s+''), Text (''a'' @ backslash # ''[1'' @ backslash # '']''),
                       Pattern (backslash # ''s+''), Text (backslash # ''+''),
                       Pattern (backslash # ''s+''), Text (backslash # ''{b'' @ backslash # ''}'')]\<rparr>"
    by code_simp
  note t = literal_text_matches_itself[OF py_re_escape_literal py_re_escape_search py_re_space_run
      n1 n2 n3 n4 c, of InOrder 7 "[(''V'', ''1'')]"]
  show ?thesis
    by (rule conjI[OF py_re_escape_literal conjI[OF py_re_escape_search conjI[OF py_re_space_run conjI[OF i t]]]])
qed

text \<open>
  C7 as stated fails for a text without a character that is not whitespace: it has none of
  the markers, and the line cannot be built, by the check for an empty check line.
\<close>

theorem empty_text_is_no_check_line:
  "\<not> contains '''' ''{{'' \<and> \<not> contains '''' ''}}'' \<and> \<not> contains '''' ''[['' \<and> \<not> contains '''' '']]'' \<and>
   CheckLine_init py_re '''' InOrder (- 1) = Inl EmptyCheckLine \<and>
   \<not> contains ''  '' ''{{'' \<and> \<not> contains ''  '' ''}}'' \<and> \<not> contains ''  '' ''[['' \<and> \<not> contains ''  '' '']]'' \<and>
   CheckLine_init py_re ''  '' InOrder (- 1) = Inl EmptyCheckLine"
proof -
  have a: "\<not> contains '''' ''{{''" "\<not> contains '''' ''}}''" "\<not> contains '''' ''[[''" "\<not> contains '''' '']]''"
    by simp_all
  have b: "CheckLine_init py_re '''' InOrder (- 1) = Inl EmptyCheckLine" by code_simp
  have c1: "\<not> contains ''  '' ''{{''" by code_simp
  have c2: "\<not> contains ''  '' ''}}''" by code_simp
  have c3: "\<not> contains ''  '' ''[[''" by code_simp
  have c4: "\<not> contains ''  '' '']]''" by code_simp
  have d: "CheckLine_init py_re ''  '' InOrder (- 1) = Inl EmptyCheckLine" by code_simp
  show ?thesis
    by (rule conjI[OF a(1) conjI[OF a(2) conjI[OF a(3) conjI[OF a(4) conjI[OF b conjI[OF c1 conjI[OF c2
        conjI[OF c3 conjI[OF c4 d]]]]]]]]])
qed

end
